theory Spec2Isabelle
  imports Main "HOL-Library.Word"
begin

section \<open>Library behaviour the program relies on\<close>

text \<open>
  The program is one Go file, \<^verbatim>\<open>main.go\<close>. It calls into \<^verbatim>\<open>fmt\<close>, \<^verbatim>\<open>math/big\<close>,
  \<^verbatim>\<open>encoding/csv\<close>, \<^verbatim>\<open>encoding/json\<close>, \<^verbatim>\<open>os\<close>, \<^verbatim>\<open>archive/zip\<close>,
  \<^verbatim>\<open>pgx\<close> and \<^verbatim>\<open>pgtype\<close>. None of these packages is part of the repository; this
  section fixes, from their documented behaviour, what the calls made by \<^verbatim>\<open>main.go\<close> do.
\<close>

subsection \<open>Base-10 digits\<close>

text \<open>
  Integers are printed as \<^verbatim>\<open>strconv\<close> and \<^verbatim>\<open>math/big\<close> do: \<open>utoa\<close> for a magnitude,
  \<open>itoa\<close> with a sign in front.
\<close>

definition digit_char :: "int \<Rightarrow> char" where
  "digit_char d = ''0123456789'' ! nat d"

function utoa :: "int \<Rightarrow> string" where
  "utoa n = (if n < 10 then [digit_char n] else utoa (n div 10) @ [digit_char (n mod 10)])"
  by pat_completeness auto
termination
  by (relation "measure nat") auto

declare utoa.simps [simp del]

definition itoa :: "int \<Rightarrow> string" where
  "itoa i = (if i < 0 then CHR ''-'' # utoa (- i) else utoa i)"

subsection \<open>\<^verbatim>\<open>math/big.Rat\<close>\<close>

text \<open>
  \<^verbatim>\<open>big.Rat\<close> and its method \<^verbatim>\<open>FloatString\<close> belong to Go's standard library, not to
  the repository; they are written here as the library documents and implements them.
  A \<^verbatim>\<open>Rat\<close> is a numerator \<open>rat_a\<close> and a denominator \<open>rat_b\<close> in lowest terms; the
  zero value \<^verbatim>\<open>&big.Rat{}\<close> has an empty denominator, written \<open>0\<close> here, which the
  library reads as \<open>1\<close>.
\<close>

record Rat =
  rat_a :: int
  rat_b :: int

definition Rat_zero :: Rat where
  "Rat_zero = \<lparr>rat_a = 0, rat_b = 0\<rparr>"

definition Rat_IsInt :: "Rat \<Rightarrow> bool" where
  "Rat_IsInt x = (rat_b x = 0 \<or> rat_b x = 1)"

text \<open>
  Library behaviour: \<^verbatim>\<open>FloatString(prec)\<close> prints \<open>prec\<close> digits after the
  radix point (the spec: "rendered to exactly 5 fractional digits"), the last digit rounded
  to nearest with halves away from zero, as the library documents.
\<close>

definition Rat_FloatString :: "Rat \<Rightarrow> nat \<Rightarrow> string" where
  "Rat_FloatString x prec =
     (if Rat_IsInt x then
        itoa (rat_a x) @ (if prec > 0 then CHR ''.'' # replicate prec (CHR ''0'') else [])
      else
        (let q = \<bar>rat_a x\<bar> div rat_b x;
             r = \<bar>rat_a x\<bar> mod rat_b x;
             p = 10 ^ prec;
             r1 = (r * p) div rat_b x;
             r2 = (r * p) mod rat_b x;
             up = (rat_b x \<le> r2 + r2);
             r3 = (if up then r1 + 1 else r1);
             carry = (up \<and> p \<le> r3);
             q' = (if carry then q + 1 else q);
             r4 = (if carry then r3 - p else r3);
             rs = utoa r4
         in (if rat_a x < 0 then ''-'' else '''') @ utoa q' @
            (if prec > 0 then CHR ''.'' # replicate (prec - length rs) (CHR ''0'') @ rs else [])))"

subsection \<open>\<^verbatim>\<open>pgtype.Numeric\<close>\<close>

datatype Status = Undefined | Null | Present

datatype InfinityModifier = Finite | Infinity | NegativeInfinity

text \<open>
  Library type: \<^verbatim>\<open>pgtype.Numeric\<close> is the driver's decimal, the integer
  \<open>Int'\<close> scaled by \<open>10 ^ Exp\<close>, or not-a-number, or an infinity.
\<close>

record Numeric =
  Int' :: int
  Exp :: int
  Status :: Status
  NaN :: bool
  InfinityModifier :: InfinityModifier

definition Rat_norm :: "int \<Rightarrow> int \<Rightarrow> Rat" where
  "Rat_norm n d = (let g = gcd n d in
     if g = 0 then \<lparr>rat_a = n, rat_b = d\<rparr>
     else \<lparr>rat_a = n div g, rat_b = d div g\<rparr>)"

text \<open>
  Library behaviour: \<^verbatim>\<open>Numeric.AssignTo(dst *big.Rat)\<close>. It returns an error and
  leaves \<open>dst\<close> untouched for a value that is no rational (NaN, an infinity, a null); it
  stores \<open>Int' * 10 ^ Exp\<close> otherwise. The result is the error, if any, and the new \<open>dst\<close>.
  The error texts stand for the library's own; the program drops them.
\<close>

definition Numeric_AssignTo :: "Numeric \<Rightarrow> Rat \<Rightarrow> string option \<times> Rat" where
  "Numeric_AssignTo src dst =
     (case Status src of
        Present \<Rightarrow>
          (if NaN src then (Some ''NaN is not a number'', dst)
           else if InfinityModifier src = Infinity then (Some ''cannot convert Infinity'', dst)
           else if InfinityModifier src = NegativeInfinity then (Some ''cannot convert -Infinity'', dst)
           else if 0 \<le> Exp src then (None, \<lparr>rat_a = Int' src * 10 ^ nat (Exp src), rat_b = 1\<rparr>)
           else (None, Rat_norm (Int' src) (10 ^ nat (- Exp src))))
      | Null \<Rightarrow> (Some ''cannot assign NULL'', dst)
      | Undefined \<Rightarrow> (None, dst))"

section \<open>Cells and their rendering\<close>

text \<open>
  \<^verbatim>\<open>rows.Values()\<close> yields \<^verbatim>\<open>[]interface{}\<close>; the switch in \<^verbatim>\<open>runQuery\<close> tells the
  values apart by dynamic type. There is one constructor per type the switch names and
  \<open>VOther\<close> for every other dynamic type. Values whose text is made by \<^verbatim>\<open>fmt\<close> or
  \<^verbatim>\<open>encoding/json\<close> from data this file does not look into are held as that text:
  \<open>VHardwareAddr\<close>, \<open>VTime\<close>, \<open>VDuration\<close>, \<open>VIPNet\<close> by what \<^verbatim>\<open>%s\<close> prints,
  \<open>VFloat32\<close> and \<open>VFloat64\<close> by what \<^verbatim>\<open>%f\<close> prints, \<open>VBigInt\<close> by what \<^verbatim>\<open>%d\<close>
  prints, \<open>VMap\<close> by the outcome of \<^verbatim>\<open>json.Marshal\<close> (\<open>Inl\<close> its error), and
  \<open>VOther\<close> by what \<^verbatim>\<open>%T\<close> and \<^verbatim>\<open>%v\<close> print.
\<close>

datatype gvalue =
    VString string
  | VHardwareAddr string
  | VInt32 "32 word"
  | VInt64 "64 word"
  | VUint32 "32 word"
  | VUint64 "64 word"
  | VInt8 "8 word"
  | VUint8 "8 word"
  | VBigInt string
  | VMap "string + string"
  | VNumeric Numeric
  | VFloat32 string
  | VFloat64 string
  | VTime string
  | VDuration string
  | VIPNet string
  | VBool bool
  | VNil
  | VOther string string

text \<open>
  A clause of the type switch: \<open>None\<close> when the value's dynamic type is not in the
  clause's type list, the string stored into \<^verbatim>\<open>rowData[i]\<close> otherwise.
\<close>

type_synonym clause = "gvalue \<Rightarrow> string option"

text \<open>\<^verbatim>\<open>case string, net.HardwareAddr: fmt.Sprintf("%s", thisVal)\<close>\<close>

definition case_string :: clause where
  "case_string v = (case v of VString s \<Rightarrow> Some s | VHardwareAddr s \<Rightarrow> Some s | _ \<Rightarrow> None)"

text \<open>\<^verbatim>\<open>case int32, int64, uint32, uint64, int8, uint8, big.Int: fmt.Sprintf("%d", thisVal)\<close>\<close>

definition case_int :: clause where
  "case_int v = (case v of
       VInt32 w \<Rightarrow> Some (itoa (sint w))
     | VInt64 w \<Rightarrow> Some (itoa (sint w))
     | VUint32 w \<Rightarrow> Some (itoa (uint w))
     | VUint64 w \<Rightarrow> Some (itoa (uint w))
     | VInt8 w \<Rightarrow> Some (itoa (sint w))
     | VUint8 w \<Rightarrow> Some (itoa (uint w))
     | VBigInt s \<Rightarrow> Some s
     | _ \<Rightarrow> None)"

text \<open>\<^verbatim>\<open>case map[string]interface{}\<close>: the JSON encoding, \<^verbatim>\<open>bad data\<close> on an error.\<close>

definition case_map :: clause where
  "case_map v = (case v of
       VMap (Inl err) \<Rightarrow> Some ''bad data''
     | VMap (Inr b) \<Rightarrow> Some b
     | _ \<Rightarrow> None)"

text \<open>
  \<^verbatim>\<open>case pgtype.Numeric\<close>: \<^verbatim>\<open>out := &big.Rat{}; thisVal.AssignTo(out)\<close>, the error
  dropped, then \<^verbatim>\<open>out.FloatString(5)\<close>.
\<close>

definition case_Numeric :: clause where
  "case_Numeric v = (case v of
       VNumeric thisVal \<Rightarrow>
         (let out = snd (Numeric_AssignTo thisVal Rat_zero) in Some (Rat_FloatString out 5))
     | _ \<Rightarrow> None)"

text \<open>\<^verbatim>\<open>case float32, float64: fmt.Sprintf("%f", thisVal)\<close>\<close>

definition case_float :: clause where
  "case_float v = (case v of VFloat32 s \<Rightarrow> Some s | VFloat64 s \<Rightarrow> Some s | _ \<Rightarrow> None)"

text \<open>\<^verbatim>\<open>case time.Time, time.Duration, *net.IPNet: fmt.Sprintf("%s", thisVal)\<close>\<close>

definition case_time :: clause where
  "case_time v = (case v of
       VTime s \<Rightarrow> Some s | VDuration s \<Rightarrow> Some s | VIPNet s \<Rightarrow> Some s | _ \<Rightarrow> None)"

text \<open>\<^verbatim>\<open>case bool: fmt.Sprintf("%t", thisVal)\<close>\<close>

definition case_bool :: clause where
  "case_bool v = (case v of VBool t \<Rightarrow> Some (if t then ''true'' else ''false'') | _ \<Rightarrow> None)"

text \<open>\<^verbatim>\<open>case nil\<close>\<close>

definition case_nil :: clause where
  "case_nil v = (case v of VNil \<Rightarrow> Some ''[null]'' | _ \<Rightarrow> None)"

text \<open>
  \<^verbatim>\<open>default: fmt.Sprintf("(%T): %v", thisVal, thisVal)\<close>, entered for the dynamic types
  no clause lists.
\<close>

definition case_default :: clause where
  "case_default v = (case v of
       VOther tname txt \<Rightarrow> Some (''('' @ tname @ ''): '' @ txt)
     | _ \<Rightarrow> None)"

text \<open>The switch runs the first clause that takes the value.\<close>

fun type_switch :: "clause list \<Rightarrow> gvalue \<Rightarrow> string option" where
  "type_switch [] v = None"
| "type_switch (c # cs) v = (case c v of Some s \<Rightarrow> Some s | None \<Rightarrow> type_switch cs v)"

definition cell_switch :: "gvalue \<Rightarrow> string option" where
  "cell_switch v = type_switch
     [case_string, case_int, case_map, case_Numeric, case_float, case_time, case_bool,
      case_nil, case_default] v"

text \<open>
  \<^verbatim>\<open>rowData := make([]string, len(vals))\<close> starts every cell as the empty string, which is
  what a cell no clause assigns would keep.
\<close>

definition render :: "gvalue \<Rightarrow> string" where
  "render v = (case cell_switch v of Some s \<Rightarrow> s | None \<Rightarrow> '''')"

section \<open>What lies outside the process\<close>

subsection \<open>Panics\<close>

text \<open>
  A Go panic that nothing recovers ends the whole process, whichever goroutine raised
  it. \<open>NilPointer\<close> is the runtime's nil dereference, \<open>PanicError\<close> a call of
  \<^verbatim>\<open>panic(err)\<close>.
\<close>

datatype panic = NilPointer | PanicError string

subsection \<open>Temporary files and \<^verbatim>\<open>encoding/csv\<close>\<close>

text \<open>
  A file is held as the CSV records written to it, one \<open>string list\<close> per record. Its
  bytes are \<open>csv_text\<close> of the records, defined below; a record whose field holds a line
  break takes more than one text line there. The file system maps names to files.
\<close>

type_synonym csv_file = "string list list"

type_synonym fsys = "string \<rightharpoonup> csv_file"

text \<open>
  Library behaviour: \<^verbatim>\<open>os.CreateTemp("", "sqlcsv")\<close> of Go's standard library. It
  fails outright (\<open>Inl\<close>), or draws names until one is not taken and creates that file,
  empty; it gives up when every name it drew exists. The names it would draw are an input.
\<close>

definition os_CreateTemp :: "string + string list \<Rightarrow> fsys \<Rightarrow> string + (string \<times> fsys)" where
  "os_CreateTemp names fs =
     (case names of
        Inl err \<Rightarrow> Inl err
      | Inr cands \<Rightarrow>
          (case filter (\<lambda>n. fs n = None) cands of
             [] \<Rightarrow> Inl ''file exists''
           | n # rest \<Rightarrow> Inr (n, fs(n \<mapsto> []))))"

text \<open>
  Library type: \<^verbatim>\<open>csv.Writer\<close> of Go's standard library, a struct around a
  pointer to a buffered writer. \<^verbatim>\<open>csv.NewWriter(f)\<close> sets the pointer; the zero value
  \<^verbatim>\<open>&csv.Writer{}\<close> leaves it nil and has the delimiter \<open>0\<close>. \<open>w_file\<close> is the file
  behind the pointer (\<open>None\<close> for nil) and \<open>w_buf\<close> the records not yet flushed. The
  library's buffer also writes through whenever 4096 bytes are pending; that shows only in
  the file of a task that never reaches \<^verbatim>\<open>Flush\<close>, of which nothing is stated here.
\<close>

record csv_Writer =
  w_file :: "string option"
  w_buf :: csv_file

definition csv_zero :: csv_Writer where
  "csv_zero = \<lparr>w_file = None, w_buf = []\<rparr>"

definition csv_NewWriter :: "string \<Rightarrow> csv_Writer" where
  "csv_NewWriter f = \<lparr>w_file = Some f, w_buf = []\<rparr>"

text \<open>
  \<^verbatim>\<open>Write\<close> on the zero value returns the invalid-delimiter error before it touches the
  nil pointer, and writes nothing; \<^verbatim>\<open>runQuery\<close> drops the error of every \<^verbatim>\<open>Write\<close>.
  Writes to an open temporary file are taken to succeed.
\<close>

definition csv_Write :: "csv_Writer \<Rightarrow> string list \<Rightarrow> csv_Writer" where
  "csv_Write w record' =
     (case w_file w of None \<Rightarrow> w | Some f \<Rightarrow> w\<lparr>w_buf := w_buf w @ [record']\<rparr>)"

text \<open>
  \<^verbatim>\<open>Flush\<close> is \<^verbatim>\<open>w.w.Flush()\<close>: through a nil pointer it reads a field of the buffered
  writer and the runtime panics; otherwise the buffered records reach the file.
\<close>

definition csv_Flush :: "csv_Writer \<Rightarrow> fsys \<Rightarrow> panic + fsys" where
  "csv_Flush w fs =
     (case w_file w of
        None \<Rightarrow> Inl NilPointer
      | Some f \<Rightarrow>
          (case fs f of
             None \<Rightarrow> Inr fs
           | Some recs \<Rightarrow> Inr (fs(f \<mapsto> recs @ w_buf w))))"

subsection \<open>The text of a file\<close>













subsection \<open>\<^verbatim>\<open>pgx\<close>: descriptors, connections, result sets\<close>

text \<open>The two fields of \<^verbatim>\<open>pgconn.Config\<close> the program reads.\<close>

record ConnConfig =
  Host :: string
  Database :: string

text \<open>
  A \<^verbatim>\<open>pgx.Rows\<close>, by what it does when \<^verbatim>\<open>runQuery\<close> drives it: the column names of
  \<^verbatim>\<open>FieldDescriptions()\<close>; for each call of \<^verbatim>\<open>Next()\<close> that returns true, the outcome
  of \<^verbatim>\<open>Values()\<close> on that row (\<open>Inl\<close> its error); and \<open>Err\<close>, the error behind the
  final \<^verbatim>\<open>Next()\<close> that returns false (\<open>None\<close> when the rows simply ran out), which is
  what \<^verbatim>\<open>rows.Err()\<close> would report.
\<close>

record Rows =
  FieldDescriptions :: "string list"
  fetched :: "(string + gvalue list) list"
  Err :: "string option"

text \<open>A live \<^verbatim>\<open>*pgx.Conn\<close>: what \<^verbatim>\<open>Query\<close> returns for a query text.\<close>

type_synonym Conn = "string \<Rightarrow> string + Rows"

text \<open>
  What is the same for every task: \<^verbatim>\<open>pgx.ParseConfig\<close>, and the two float formats of
  \<^verbatim>\<open>fmt\<close> used in status texts, \<open>fmt_rate n d\<close> for \<^verbatim>\<open>%.2f\<close> of \<open>n\<close> rows over \<open>d\<close>
  nanoseconds and \<open>fmt_secs d\<close> for \<^verbatim>\<open>%.1f\<close> of \<open>d\<close> nanoseconds in seconds.
\<close>

record lib =
  ParseConfig :: "string \<Rightarrow> string + ConnConfig"
  fmt_rate :: "nat \<Rightarrow> int \<Rightarrow> string"
  fmt_secs :: "int \<Rightarrow> string"

text \<open>
  What the world does for one task: \<open>dial\<close>, the outcome of connecting to a parsed
  descriptor within the 15 second timeout; \<open>temp\<close>, what \<^verbatim>\<open>os.CreateTemp\<close> has to work
  with; and the three places where the task reads \<^verbatim>\<open>time.Now()\<close>, in nanoseconds:
  when the query starts, after the \<open>k\<close>-th row, and at the end.
\<close>

record endpoint =
  dial :: "ConnConfig \<Rightarrow> string + Conn"
  temp :: "string + string list"
  now_start :: int
  now_row :: "nat \<Rightarrow> int"
  now_end :: int

text \<open>
  Library behaviour: \<^verbatim>\<open>pgx.Connect\<close> parses the descriptor with
  \<^verbatim>\<open>ParseConfig\<close>, returns its error if there is one, and connects otherwise.
\<close>

definition pgx_Connect :: "lib \<Rightarrow> endpoint \<Rightarrow> string \<Rightarrow> string + Conn" where
  "pgx_Connect L E url =
     (case ParseConfig L url of Inl err \<Rightarrow> Inl err | Inr cfg \<Rightarrow> dial E cfg)"

section \<open>The connection and its task\<close>

text \<open>\<^verbatim>\<open>type connectionState rune\<close>, with the code points of the constants.\<close>

type_synonym connectionState = "32 word"

definition stateInit :: connectionState where "stateInit = 0x1F3AC"
definition stateConnecting :: connectionState where "stateConnecting = 0x1F50C"
definition stateConnected :: connectionState where "stateConnected = 0x1F50C"
definition stateStartQuery :: connectionState where "stateStartQuery = 0x1F50D"
definition stateError :: connectionState where "stateError = 0x1F4A3"
definition stateFetching :: connectionState where "stateFetching = 0x1F4DD"
definition stateComplete :: connectionState where "stateComplete = 0x1F3C1"

lemmas state_defs =
  stateInit_def stateConnecting_def stateConnected_def stateStartQuery_def stateError_def
  stateFetching_def stateComplete_def

record connection =
  status :: string
  state :: connectionState
  pgConnectionURL :: string
  pg :: "Conn option"
  tmpFn :: "string option"
  tmpFilename :: string
  fetchStart :: int

text \<open>The states after which a task writes its connection no more.\<close>

definition terminal :: "connection \<Rightarrow> bool" where
  "terminal c = (state c = stateError \<or> state c = stateComplete)"

subsection \<open>\<^verbatim>\<open>runQuery\<close>\<close>

text \<open>The locals of \<^verbatim>\<open>runQuery\<close> that its loop changes, the connection and the files.\<close>

record frame =
  f_c :: connection
  f_fs :: fsys
  f_w :: csv_Writer
  rowCount :: nat
  headerWritten :: bool

text \<open>
  The block under \<^verbatim>\<open>if !headerWritten\<close>: create the temporary file, or mark the
  connection and return (\<open>Inl\<close>); then write the header.
\<close>

definition open_artifact :: "endpoint \<Rightarrow> string list \<Rightarrow> frame \<Rightarrow> (connection \<times> fsys) + frame" where
  "open_artifact E descs fr =
     (case os_CreateTemp (temp E) (f_fs fr) of
        Inl err \<Rightarrow>
          Inl ((f_c fr)\<lparr>state := stateError, status := ''could not open tmp file: '' @ err\<rparr>,
               f_fs fr)
      | Inr (f, fs') \<Rightarrow>
          Inr (fr\<lparr>f_c := (f_c fr)\<lparr>tmpFn := Some f, tmpFilename := f\<rparr>,
                  f_fs := fs',
                  f_w := csv_Write (csv_NewWriter f) descs,
                  headerWritten := True\<rparr>))"

text \<open>
  One pass through the body of \<^verbatim>\<open>for rows.Next()\<close>, on the outcome \<open>ev\<close> of
  \<^verbatim>\<open>rows.Values()\<close>. \<open>Inl\<close> is a \<^verbatim>\<open>return\<close> from inside the loop.
\<close>

definition loop_body ::
  "lib \<Rightarrow> endpoint \<Rightarrow> string list \<Rightarrow> string + gvalue list \<Rightarrow> frame \<Rightarrow> (connection \<times> fsys) + frame" where
  "loop_body L E descs ev fr0 =
     (let fr1 = fr0\<lparr>rowCount := rowCount fr0 + 1\<rparr> in
      case (if \<not> headerWritten fr1 then open_artifact E descs fr1 else Inr fr1) of
        Inl ret \<Rightarrow> Inl ret
      | Inr fr2 \<Rightarrow>
          (case ev of
             Inl err \<Rightarrow>
               Inl ((f_c fr2)\<lparr>status := ''failed to get row values: '' @ err,
                              state := stateError\<rparr>, f_fs fr2)
           | Inr vals \<Rightarrow>
               (let rowData = map render vals;
                    dur = now_row E (rowCount fr2) - fetchStart (f_c fr2);
                    perSec = (if dur > 0
                              then ''('' @ fmt_rate L (rowCount fr2) dur @ ''/s)'' else [])
                in Inr (fr2\<lparr>f_c := (f_c fr2)
                             \<lparr>status := ''fetch '' @ utoa (int (rowCount fr2)) @ '' rows '' @ perSec,
                              state := stateFetching\<rparr>,
                           f_w := csv_Write (f_w fr2) rowData\<rparr>))))"

text \<open>The loop: one pass per row that \<^verbatim>\<open>Next()\<close> announces.\<close>

fun rows_loop ::
  "lib \<Rightarrow> endpoint \<Rightarrow> string list \<Rightarrow> (string + gvalue list) list \<Rightarrow> frame
     \<Rightarrow> (connection \<times> fsys) + frame" where
  "rows_loop L E descs [] fr = Inr fr"
| "rows_loop L E descs (ev # evs) fr =
     (case loop_body L E descs ev fr of
        Inl ret \<Rightarrow> Inl ret
      | Inr fr' \<Rightarrow> rows_loop L E descs evs fr')"

text \<open>
  \<^verbatim>\<open>runQuery\<close>. The result is a panic, or the connection and the files at the return.
  After the loop the code goes straight to \<^verbatim>\<open>w.Flush()\<close>; it never asks \<^verbatim>\<open>rows.Err()\<close>,
  so \<open>Err rows\<close> does not occur below.
\<close>

definition runQuery ::
  "lib \<Rightarrow> endpoint \<Rightarrow> connection \<Rightarrow> string \<Rightarrow> fsys \<Rightarrow> panic + (connection \<times> fsys)" where
  "runQuery L E c0 query fs =
     (let c = c0\<lparr>status := ''executing query'', state := stateStartQuery,
                 fetchStart := now_start E\<rparr> in
      case pg c of
        None \<Rightarrow> Inl NilPointer
      | Some conn \<Rightarrow>
          (case conn query of
             Inl err \<Rightarrow>
               Inr (c\<lparr>status := ''failed to run query: '' @ err, state := stateError\<rparr>, fs)
           | Inr rows \<Rightarrow>
               (case rows_loop L E (FieldDescriptions rows) (fetched rows)
                       \<lparr>f_c = c, f_fs = fs, f_w = csv_zero, rowCount = 0,
                        headerWritten = False\<rparr> of
                  Inl ret \<Rightarrow> Inr ret
                | Inr fr \<Rightarrow>
                    (case csv_Flush (f_w fr) (f_fs fr) of
                       Inl p \<Rightarrow> Inl p
                     | Inr fs' \<Rightarrow>
                         Inr ((f_c fr)
                               \<lparr>state := stateComplete,
                                status := ''fetched '' @ utoa (int (rowCount fr))
                                  @ '' rows successfully in ''
                                  @ fmt_secs L (now_end E - fetchStart (f_c fr))
                                  @ '' seconds''\<rparr>, fs')))))"

subsection \<open>\<^verbatim>\<open>connectAndQuery\<close>\<close>

text \<open>
  The first two assignments of \<^verbatim>\<open>connectAndQuery\<close>, and the rest of it. They are kept
  apart so that a task under way can be seen in a state that is not terminal.
\<close>

definition connecting :: "connection \<Rightarrow> connection" where
  "connecting c = c\<lparr>status := ''connecting'', state := stateConnecting\<rparr>"

definition connect_then_query ::
  "lib \<Rightarrow> endpoint \<Rightarrow> connection \<Rightarrow> string \<Rightarrow> fsys \<Rightarrow> panic + (connection \<times> fsys)" where
  "connect_then_query L E c query fs =
     (case pgx_Connect L E (pgConnectionURL c) of
        Inl err \<Rightarrow> Inr (c\<lparr>status := ''failed: '' @ err, state := stateError\<rparr>, fs)
      | Inr conn \<Rightarrow>
          runQuery L E (c\<lparr>pg := Some conn, status := ''connected'', state := stateConnected\<rparr>)
            query fs)"

definition connectAndQuery ::
  "lib \<Rightarrow> endpoint \<Rightarrow> connection \<Rightarrow> string \<Rightarrow> fsys \<Rightarrow> panic + (connection \<times> fsys)" where
  "connectAndQuery L E c query fs = connect_then_query L E (connecting c) query fs"


subsection \<open>What can be seen of a task's result\<close>

text \<open>
  Two connections that agree on everything but the name of the temporary file, and two
  frames of \<^verbatim>\<open>runQuery\<close>, past the header, that agree on everything but that name and
  the files of the others: each has its own file open, still empty on disk, and the same
  records buffered.
\<close>

definition alike :: "connection \<Rightarrow> connection \<Rightarrow> bool" where
  "alike c1 c2 =
     (status c1 = status c2 \<and> state c1 = state c2 \<and> pgConnectionURL c1 = pgConnectionURL c2
      \<and> pg c1 = pg c2 \<and> fetchStart c1 = fetchStart c2)"

definition own_file :: "frame \<Rightarrow> bool" where
  "own_file fr =
     (case tmpFn (f_c fr) of
        None \<Rightarrow> False
      | Some n \<Rightarrow> w_file (f_w fr) = Some n \<and> f_fs fr n = Some [])"

definition same_task :: "frame \<Rightarrow> frame \<Rightarrow> bool" where
  "same_task fr1 fr2 =
     (alike (f_c fr1) (f_c fr2) \<and> rowCount fr1 = rowCount fr2
      \<and> headerWritten fr1 \<and> headerWritten fr2
      \<and> w_buf (f_w fr1) = w_buf (f_w fr2)
      \<and> own_file fr1 \<and> own_file fr2)"

text \<open>
  What the claims speak of in the result of a task: the state, the status text, and the
  content of its temporary file if it has one.
\<close>

definition observed :: "connection \<times> fsys \<Rightarrow> connectionState \<times> string \<times> csv_file option" where
  "observed r =
     (state (fst r), status (fst r),
      (case tmpFn (fst r) of None \<Rightarrow> None | Some f \<Rightarrow> snd r f))"

definition same_outcome ::
  "panic + (connection \<times> fsys) \<Rightarrow> panic + (connection \<times> fsys) \<Rightarrow> bool" where
  "same_outcome r1 r2 =
     (case r1 of
        Inl p1 \<Rightarrow> (case r2 of Inl p2 \<Rightarrow> p1 = p2 | Inr b \<Rightarrow> False)
      | Inr a \<Rightarrow> (case r2 of Inl p2 \<Rightarrow> False | Inr b \<Rightarrow> observed a = observed b))"


section \<open>\<^verbatim>\<open>main\<close>: the goroutines, the join and the archive\<close>

subsection \<open>\<^verbatim>\<open>pgConnectionURLtoFilename\<close>\<close>

definition pgConnectionURLtoFilename :: "lib \<Rightarrow> string \<Rightarrow> panic + string" where
  "pgConnectionURLtoFilename L url =
     (case ParseConfig L url of
        Inl err \<Rightarrow> Inl (PanicError err)
      | Inr connConfig \<Rightarrow> Inr (Host connConfig @ ''_'' @ Database connConfig @ ''.csv''))"

subsection \<open>The archiving loop\<close>

text \<open>
  Library type: \<^verbatim>\<open>zip.Writer\<close> of Go's standard library. The archive is the
  list of its entries, a name and the content copied into it; \<^verbatim>\<open>Create\<close> appends an
  entry and does not look for an earlier entry of the same name.
\<close>

type_synonym zip_archive = "(string \<times> csv_file) list"

text \<open>
  The loop \<^verbatim>\<open>for _, c := range m.conns\<close> of the archiving goroutine. A connection that
  is not in \<^verbatim>\<open>stateComplete\<close> is skipped. \<^verbatim>\<open>os.Open\<close> of a name that does not exist
  gives a nil file, \<^verbatim>\<open>io.Copy\<close> from it an error, and the code panics on that error;
  copying an open file is taken to succeed. \<^verbatim>\<open>os.Remove\<close> deletes the file.
\<close>

fun archive_loop :: "lib \<Rightarrow> connection list \<Rightarrow> zip_archive \<times> fsys \<Rightarrow> panic + (zip_archive \<times> fsys)" where
  "archive_loop L [] (z, fs) = Inr (z, fs)"
| "archive_loop L (c # cs) (z, fs) =
     (if state c \<noteq> stateComplete then archive_loop L cs (z, fs)
      else
        (case pgConnectionURLtoFilename L (pgConnectionURL c) of
           Inl p \<Rightarrow> Inl p
         | Inr name \<Rightarrow>
             (case fs (tmpFilename c) of
                None \<Rightarrow> Inl (PanicError ''invalid argument'')
              | Some content \<Rightarrow>
                  archive_loop L cs (z @ [(name, content)], fs(tmpFilename c := None)))))"

subsection \<open>The process\<close>

text \<open>
  What a run is given, once the flags are parsed and found complete: the descriptors of
  \<^verbatim>\<open>flag.Args()\<close>, each with what the world does for its task; the query; the files
  present at the start; and the outcome of \<^verbatim>\<open>os.Create(m.outputFilename)\<close>.
\<close>

record world =
  w_lib :: lib
  w_targets :: "(string \<times> endpoint) list"
  w_query :: string
  w_disk :: fsys
  w_create :: "string option"

text \<open>
  Where the goroutine of one connection stands: not yet in \<^verbatim>\<open>connectAndQuery\<close>; in it,
  past its first two assignments; back from it, before \<^verbatim>\<open>wg.Done()\<close>; past
  \<^verbatim>\<open>wg.Done()\<close>.
\<close>

datatype goroutine = Spawned | Running | Returned | Finished

datatype fate = Alive | Panicked panic | Exited nat

text \<open>
  The process: \<^verbatim>\<open>m.conns\<close>, one goroutine per connection, the counter of the
  \<^verbatim>\<open>sync.WaitGroup\<close>, the files, whether \<^verbatim>\<open>wg.Wait()\<close> has returned, the archive once it
  is written, and whether the process still runs.
\<close>

record proc =
  conns :: "connection list"
  gors :: "goroutine list"
  wg :: int
  disk :: fsys
  joined :: bool
  archive :: "zip_archive option"
  fate :: fate

text \<open>\<^verbatim>\<open>connection{status: "init", pgConnectionURL: h, pg: nil}\<close>: the state is the zero rune.\<close>

definition new_connection :: "string \<Rightarrow> connection" where
  "new_connection h =
     \<lparr>status = ''init'', state = 0, pgConnectionURL = h, pg = None, tmpFn = None,
      tmpFilename = [], fetchStart = 0\<rparr>"

text \<open>\<^verbatim>\<open>main\<close> up to \<^verbatim>\<open>wg.Wait()\<close>: the connections are built, \<^verbatim>\<open>wg.Add(len(m.conns))\<close>.\<close>

definition start :: "world \<Rightarrow> proc" where
  "start W =
     \<lparr>conns = map (\<lambda>t. new_connection (fst t)) (w_targets W),
      gors = map (\<lambda>t. Spawned) (w_targets W),
      wg = int (length (w_targets W)),
      disk = w_disk W,
      joined = False,
      archive = None,
      fate = Alive\<rparr>"

text \<open>
  The moves of the process. The scheduler picks them in any order it likes, among those
  that are enabled; \<open>step\<close> is \<open>None\<close> for a move that is not. Goroutine \<open>i\<close> enters
  \<^verbatim>\<open>connectAndQuery\<close> (\<open>Begin\<close>), runs it to its return or to a panic (\<open>Body\<close>; a task
  writes nothing but its own connection and its own temporary file), and calls
  \<^verbatim>\<open>wg.Done()\<close> (\<open>Done\<close>). \<open>Wait\<close> is the return of \<^verbatim>\<open>wg.Wait()\<close>, possible when the
  counter is zero. \<open>Archive\<close> is the archiving goroutine, started after the join. A
  process that panicked or exited moves no more. The terminal display and the user's
  request to quit, which ends the process wherever it stands, are left out.
\<close>

datatype action = Begin nat | Body nat | Done nat | Wait | Archive

fun step :: "world \<Rightarrow> action \<Rightarrow> proc \<Rightarrow> proc option" where
  "step W (Begin i) s =
     (if fate s = Alive \<and> i < length (gors s) \<and> gors s ! i = Spawned
      then Some (s\<lparr>conns := (conns s)[i := connecting (conns s ! i)],
                   gors := (gors s)[i := Running]\<rparr>)
      else None)"
| "step W (Body i) s =
     (if fate s = Alive \<and> i < length (gors s) \<and> i < length (w_targets W) \<and> gors s ! i = Running
      then
        (case connect_then_query (w_lib W) (snd (w_targets W ! i)) (conns s ! i) (w_query W) (disk s) of
           Inl p \<Rightarrow> Some (s\<lparr>fate := Panicked p\<rparr>)
         | Inr (c', fs') \<Rightarrow>
             Some (s\<lparr>conns := (conns s)[i := c'], disk := fs',
                     gors := (gors s)[i := Returned]\<rparr>))
      else None)"
| "step W (Done i) s =
     (if fate s = Alive \<and> i < length (gors s) \<and> gors s ! i = Returned
      then
        (if wg s - 1 < 0
         then Some (s\<lparr>fate := Panicked (PanicError ''sync: negative WaitGroup counter'')\<rparr>)
         else Some (s\<lparr>wg := wg s - 1, gors := (gors s)[i := Finished]\<rparr>))
      else None)"
| "step W Wait s =
     (if fate s = Alive \<and> \<not> joined s \<and> wg s = 0 then Some (s\<lparr>joined := True\<rparr>) else None)"
| "step W Archive s =
     (if fate s = Alive \<and> joined s \<and> archive s = None
      then
        (case w_create W of
           Some err \<Rightarrow> Some (s\<lparr>fate := Exited 1\<rparr>)
         | None \<Rightarrow>
             (case archive_loop (w_lib W) (conns s) ([], disk s) of
                Inl p \<Rightarrow> Some (s\<lparr>fate := Panicked p\<rparr>)
              | Inr (z, fs') \<Rightarrow> Some (s\<lparr>archive := Some z, disk := fs'\<rparr>)))
      else None)"

text \<open>A run: the moves of a schedule, one after the other, from a given state.\<close>

fun exec :: "world \<Rightarrow> action list \<Rightarrow> proc \<Rightarrow> proc option" where
  "exec W [] s = Some s"
| "exec W (a # as) s = (case step W a s of None \<Rightarrow> None | Some s' \<Rightarrow> exec W as s')"


subsection \<open>What holds of every state a run reaches\<close>

text \<open>The goroutines that have not called \<^verbatim>\<open>wg.Done()\<close> yet.\<close>

definition unfinished :: "goroutine list \<Rightarrow> nat" where
  "unfinished gs = length (filter (\<lambda>g. g \<noteq> Finished) gs)"

definition returned :: "goroutine \<Rightarrow> bool" where
  "returned g = (g = Returned \<or> g = Finished)"

definition Complete :: "connection \<Rightarrow> bool" where
  "Complete c = (state c = stateComplete)"

text \<open>
  One connection and one goroutine per descriptor; the counter of the wait group is the
  number of goroutines that have not called \<^verbatim>\<open>wg.Done()\<close>; a goroutine back from
  \<^verbatim>\<open>connectAndQuery\<close> has left its connection in a terminal state, one that is not back
  has not completed it; the join comes after the counter is zero and the archive after the
  join.
\<close>

definition join_inv :: "world \<Rightarrow> proc \<Rightarrow> bool" where
  "join_inv W s =
     (length (conns s) = length (w_targets W) \<and> length (gors s) = length (w_targets W)
      \<and> wg s = int (unfinished (gors s))
      \<and> (\<forall>i < length (w_targets W). returned (gors s ! i) \<longrightarrow> terminal (conns s ! i))
      \<and> (\<forall>i < length (w_targets W). \<not> returned (gors s ! i) \<longrightarrow> \<not> Complete (conns s ! i))
      \<and> (joined s \<longrightarrow> wg s = 0)
      \<and> (archive s \<noteq> None \<longrightarrow> joined s))"

text \<open>
  The descriptor of a completed connection parses; until the archive is written its
  temporary file exists; two completed connections have different temporary files.
\<close>

definition files_inv :: "world \<Rightarrow> proc \<Rightarrow> bool" where
  "files_inv W s =
     ((\<forall>i < length (conns s). Complete (conns s ! i) \<longrightarrow>
          (\<exists>cfg. ParseConfig (w_lib W) (pgConnectionURL (conns s ! i)) = Inr cfg))
      \<and> (archive s = None \<longrightarrow>
            (\<forall>i < length (conns s). Complete (conns s ! i) \<longrightarrow>
               disk s (tmpFilename (conns s ! i)) \<noteq> None))
      \<and> (\<forall>i < length (conns s). \<forall>j < length (conns s).
            i \<noteq> j \<longrightarrow> Complete (conns s ! i) \<longrightarrow> Complete (conns s ! j) \<longrightarrow>
            tmpFilename (conns s ! i) \<noteq> tmpFilename (conns s ! j)))"

text \<open>
  An entry of the archive beside the connection it was made from: the name is
  \<^verbatim>\<open><host>_<database>.csv\<close> of the parsed descriptor.
\<close>

definition entry_of :: "lib \<Rightarrow> string \<times> csv_file \<Rightarrow> connection \<Rightarrow> bool" where
  "entry_of L e c =
     (case ParseConfig L (pgConnectionURL c) of
        Inl err \<Rightarrow> False
      | Inr cfg \<Rightarrow> fst e = Host cfg @ ''_'' @ Database cfg @ ''.csv'')"


text \<open>The archive, once written, has one entry per completed connection, in their order.\<close>

definition archive_inv :: "world \<Rightarrow> proc \<Rightarrow> bool" where
  "archive_inv W s =
     (case archive s of
        None \<Rightarrow> True
      | Some z \<Rightarrow> list_all2 (entry_of (w_lib W)) z (filter Complete (conns s)))"

section \<open>Sample runs\<close>

text \<open>
  A descriptor parser that knows two servers, and float formats that print a fixed text;
  they stand for \<^verbatim>\<open>pgx.ParseConfig\<close> and \<^verbatim>\<open>fmt\<close> in the runs below.
\<close>

definition lib0 :: lib where
  "lib0 =
     \<lparr>ParseConfig = (\<lambda>url.
        if url = ''postgresql://server1/db1'' then Inr \<lparr>Host = ''server1'', Database = ''db1''\<rparr>
        else if url = ''postgresql://server2/db2'' then Inr \<lparr>Host = ''server2'', Database = ''db2''\<rparr>
        else Inl ''cannot parse''),
      fmt_rate = (\<lambda>n d. ''1.00''),
      fmt_secs = (\<lambda>d. ''0.1'')\<rparr>"

text \<open>
  An endpoint that accepts the connection and answers every query with the columns
  \<^verbatim>\<open>id\<close> and \<^verbatim>\<open>ok\<close>, the given rows, and the given final error.
\<close>

definition ep_rows :: "(string + gvalue list) list \<Rightarrow> string option \<Rightarrow> string list \<Rightarrow> endpoint" where
  "ep_rows evs e names =
     \<lparr>dial = (\<lambda>cfg. Inr (\<lambda>q. Inr \<lparr>FieldDescriptions = [''id'', ''ok''], fetched = evs, Err = e\<rparr>)),
      temp = Inr names,
      now_start = 0,
      now_row = (\<lambda>k. int k),
      now_end = 100\<rparr>"




text \<open>An endpoint that refuses the connection.\<close>

definition ep_refused :: endpoint where
  "ep_refused =
     \<lparr>dial = (\<lambda>cfg. Inl ''connection refused''),
      temp = Inr [''/tmp/sqlcsv1''],
      now_start = 0,
      now_row = (\<lambda>k. int k),
      now_end = 100\<rparr>"

definition row1 :: "gvalue list" where "row1 = [VInt32 1, VBool True]"

definition row2 :: "gvalue list" where "row2 = [VInt32 2, VNil]"

text \<open>Two descriptors; what the second endpoint does is the parameter.\<close>

definition world2 :: "endpoint \<Rightarrow> world" where
  "world2 E =
     \<lparr>w_lib = lib0,
      w_targets = [(''postgresql://server1/db1'', ep_rows [Inr row1, Inr row2] None [''/tmp/sqlcsv1'', ''/tmp/sqlcsv2'']),
                   (''postgresql://server2/db2'', E)],
      w_query = ''SELECT id, ok FROM t'',
      w_disk = Map.empty,
      w_create = None\<rparr>"


section \<open>Properties of the cell rendering\<close>

lemmas clause_defs =
  case_string_def case_int_def case_map_def case_Numeric_def case_float_def case_time_def
  case_bool_def case_nil_def case_default_def

lemma FloatString_zero: "Rat_FloatString Rat_zero 5 = ''0.00000''"
  by code_simp

text \<open>
  Claim C1. The per-cell switch of \<^verbatim>\<open>runQuery\<close> is total: whatever the kind of the
  cell (null, boolean, integer, float, decimal, text, hardware address, temporal,
  structured, or any other dynamic type) and whatever its value, one clause of the switch
  takes it and yields a string, which is the string \<open>render\<close> stores; the case that no
  clause assigns the cell does not occur, the \<^verbatim>\<open>default\<close> clause taking what the others
  leave.
\<close>

theorem render_total: "\<exists>s. cell_switch v = Some s \<and> render v = s"
  by (cases v) (auto simp: render_def cell_switch_def clause_defs split: sum.splits)

text \<open>
  Claim C6. The fixtures of the rendering: one third, as the rational \<open>1/3\<close> and as the
  decimal \<open>0.33333333333333333333\<close> the database computes for it, renders as
  \<^verbatim>\<open>0.33333\<close>, with five digits after the point; a null cell renders as \<^verbatim>\<open>[null]\<close>; the
  boolean true renders as \<^verbatim>\<open>true\<close>; a value of a type the switch does not name renders
  as its type name in parentheses, a colon, a space and its default text.
\<close>

theorem render_fixtures:
  "Rat_FloatString \<lparr>rat_a = 1, rat_b = 3\<rparr> 5 = ''0.33333''
   \<and> render (VNumeric \<lparr>Int' = 33333333333333333333, Exp = - 20, Status = Present,
         NaN = False, InfinityModifier = Finite\<rparr>) = ''0.33333''
   \<and> render VNil = ''[null]''
   \<and> render (VBool True) = ''true''
   \<and> render (VOther tname txt) = ''('' @ tname @ ''): '' @ txt"
proof -
  have third: "Rat_FloatString \<lparr>rat_a = 1, rat_b = 3\<rparr> 5 = ''0.33333''"
    by code_simp
  have decimal: "render (VNumeric \<lparr>Int' = 33333333333333333333, Exp = - 20, Status = Present,
         NaN = False, InfinityModifier = Finite\<rparr>) = ''0.33333''"
    by code_simp
  have null: "render VNil = ''[null]''"
    by (simp add: render_def cell_switch_def clause_defs)
  have true: "render (VBool True) = ''true''"
    by (simp add: render_def cell_switch_def clause_defs)
  have other: "render (VOther tname txt) = ''('' @ tname @ ''): '' @ txt"
    by (simp add: render_def cell_switch_def clause_defs)
  from third decimal null true other show ?thesis
    by blast
qed

text \<open>
  Claim C10. When \<^verbatim>\<open>AssignTo\<close> reports an error for a \<^verbatim>\<open>pgtype.Numeric\<close> cell (a NaN,
  for one), the error is dropped, \<^verbatim>\<open>out\<close> is still the zero rational, and the cell
  renders as \<^verbatim>\<open>0.00000\<close>: no failure, no special marker.
\<close>

theorem render_unassignable_Numeric:
  "fst (Numeric_AssignTo n Rat_zero) = Some e \<Longrightarrow>
     cell_switch (VNumeric n) = Some ''0.00000'' \<and> render (VNumeric n) = ''0.00000''"
  by (auto simp: render_def cell_switch_def clause_defs Numeric_AssignTo_def FloatString_zero
           split: Status.splits if_splits)

theorem render_unassignable_Numeric_witness:
  "fst (Numeric_AssignTo \<lparr>Int' = 0, Exp = 0, Status = Present, NaN = True,
          InfinityModifier = Finite\<rparr> Rat_zero) = Some ''NaN is not a number''
   \<and> cell_switch (VNumeric \<lparr>Int' = 0, Exp = 0, Status = Present, NaN = True,
          InfinityModifier = Finite\<rparr>) = Some ''0.00000''
   \<and> render (VNumeric \<lparr>Int' = 0, Exp = 0, Status = Present, NaN = True,
          InfinityModifier = Finite\<rparr>) = ''0.00000''"
proof -
  have nan: "fst (Numeric_AssignTo \<lparr>Int' = 0, Exp = 0, Status = Present, NaN = True,
          InfinityModifier = Finite\<rparr> Rat_zero) = Some ''NaN is not a number''"
    by (simp add: Numeric_AssignTo_def)
  from nan render_unassignable_Numeric [OF nan] show ?thesis
    by simp
qed

section \<open>Properties of the task\<close>

subsection \<open>The fetch loop\<close>

lemma stateError_neq_Complete: "stateError \<noteq> stateComplete"
  by (simp add: state_defs)


lemma os_CreateTemp_fresh:
  assumes "os_CreateTemp names fs = Inr (f, fs')"
  shows "fs f = None \<and> fs' = fs(f \<mapsto> [])"
proof -
  from assms obtain cands rest where eq: "filter (\<lambda>n. fs n = None) cands = f # rest"
    and upd: "fs' = fs(f \<mapsto> [])"
    by (auto simp: os_CreateTemp_def split: sum.splits list.splits)
  have "f \<in> set (filter (\<lambda>n. fs n = None) cands)"
    by (simp add: eq)
  then have "fs f = None"
    by simp
  with upd show ?thesis
    by simp
qed

lemma open_artifact_Inl:
  "open_artifact E descs fr = Inl (c', fs') \<Longrightarrow>
     state c' = stateError \<and> fs' = f_fs fr \<and> pgConnectionURL c' = pgConnectionURL (f_c fr)"
  by (auto simp: open_artifact_def split: sum.splits prod.splits)


lemma open_artifact_Inr:
  "open_artifact E descs fr = Inr fr' \<Longrightarrow>
     \<exists>f. f_fs fr f = None \<and> f_fs fr' = (f_fs fr)(f \<mapsto> []) \<and>
         f_w fr' = \<lparr>w_file = Some f, w_buf = [descs]\<rparr> \<and>
         f_c fr' = (f_c fr)\<lparr>tmpFn := Some f, tmpFilename := f\<rparr> \<and>
         headerWritten fr' \<and> rowCount fr' = rowCount fr"
  by (auto simp: open_artifact_def csv_Write_def csv_NewWriter_def
           split: sum.splits prod.splits dest: os_CreateTemp_fresh)


lemma loop_body_Inl:
  "loop_body L E descs ev fr = Inl (c', fs') \<Longrightarrow>
     state c' = stateError \<and> pgConnectionURL c' = pgConnectionURL (f_c fr)"
  by (auto simp: loop_body_def Let_def split: sum.splits if_splits
           dest: open_artifact_Inl open_artifact_Inr)


lemma rows_loop_Inl:
  "rows_loop L E descs evs fr = Inl (c', fs') \<Longrightarrow>
     state c' = stateError \<and> pgConnectionURL c' = pgConnectionURL (f_c fr)"
proof (induction evs arbitrary: fr)
  case Nil
  then show ?case by simp
next
  case (Cons ev evs)
  show ?case
  proof (cases "loop_body L E descs ev fr")
    case (Inl ret)
    with Cons.prems show ?thesis
      by (auto dest: loop_body_Inl)
  next
    case (Inr fr')
    with Cons.prems have "rows_loop L E descs evs fr' = Inl (c', fs')"
      by simp
    from Cons.IH [OF this] have "state c' = stateError" "pgConnectionURL c' = pgConnectionURL (f_c fr')"
      by simp_all
    moreover from Inr have "pgConnectionURL (f_c fr') = pgConnectionURL (f_c fr)"
      by (auto simp: loop_body_def Let_def split: sum.splits if_splits dest: open_artifact_Inr)
    ultimately show ?thesis by simp
  qed
qed


lemma loop_body_written:
  assumes "headerWritten fr" and "w_file (f_w fr) = Some f"
    and "loop_body L E descs ev fr = Inr fr'"
  shows "\<exists>vals. ev = Inr vals \<and>
           f_w fr' = (f_w fr)\<lparr>w_buf := w_buf (f_w fr) @ [map render vals]\<rparr> \<and>
           f_fs fr' = f_fs fr \<and> rowCount fr' = rowCount fr + 1 \<and> headerWritten fr' \<and>
           tmpFilename (f_c fr') = tmpFilename (f_c fr) \<and>
           pgConnectionURL (f_c fr') = pgConnectionURL (f_c fr)"
  using assms
  by (auto simp: loop_body_def Let_def csv_Write_def split: sum.splits)


lemma rows_loop_written:
  assumes "headerWritten fr" and "w_file (f_w fr) = Some f"
    and "rows_loop L E descs evs fr = Inr fr'"
  shows "\<exists>vs. evs = map Inr vs \<and>
           f_w fr' = (f_w fr)\<lparr>w_buf := w_buf (f_w fr) @ map (map render) vs\<rparr> \<and>
           f_fs fr' = f_fs fr \<and> rowCount fr' = rowCount fr + length vs \<and>
           tmpFilename (f_c fr') = tmpFilename (f_c fr) \<and>
           pgConnectionURL (f_c fr') = pgConnectionURL (f_c fr)"
  using assms
proof (induction evs arbitrary: fr)
  case Nil
  then show ?case by simp
next
  case (Cons ev evs)
  from Cons.prems(3) obtain fr1 where b: "loop_body L E descs ev fr = Inr fr1"
    and r: "rows_loop L E descs evs fr1 = Inr fr'"
    by (auto split: sum.splits)
  from loop_body_written [OF Cons.prems(1,2) b] obtain vals where v: "ev = Inr vals"
    "f_w fr1 = (f_w fr)\<lparr>w_buf := w_buf (f_w fr) @ [map render vals]\<rparr>"
    "f_fs fr1 = f_fs fr" "rowCount fr1 = rowCount fr + 1" "headerWritten fr1"
    "tmpFilename (f_c fr1) = tmpFilename (f_c fr)"
    "pgConnectionURL (f_c fr1) = pgConnectionURL (f_c fr)"
    by blast
  from v(2) Cons.prems(2) have wf: "w_file (f_w fr1) = Some f" by simp
  from Cons.IH [OF v(5) wf r] obtain vs where vs: "evs = map Inr vs"
    "f_w fr' = (f_w fr1)\<lparr>w_buf := w_buf (f_w fr1) @ map (map render) vs\<rparr>"
    "f_fs fr' = f_fs fr1" "rowCount fr' = rowCount fr1 + length vs"
    "tmpFilename (f_c fr') = tmpFilename (f_c fr1)"
    "pgConnectionURL (f_c fr') = pgConnectionURL (f_c fr1)"
    by blast
  have "ev # evs = map Inr (vals # vs)" using v(1) vs(1) by simp
  moreover have "f_w fr' = (f_w fr)\<lparr>w_buf := w_buf (f_w fr) @ map (map render) (vals # vs)\<rparr>"
    using v(2) vs(2) by simp
  moreover have "rowCount fr' = rowCount fr + length (vals # vs)"
    using v(4) vs(4) by simp
  ultimately show ?case
    using v vs by metis
qed


lemma loop_body_first:
  assumes "\<not> headerWritten fr" and "loop_body L E descs ev fr = Inr fr'"
  shows "\<exists>vals f. ev = Inr vals \<and> f_fs fr f = None \<and> f_fs fr' = (f_fs fr)(f \<mapsto> []) \<and>
           f_w fr' = \<lparr>w_file = Some f, w_buf = [descs, map render vals]\<rparr> \<and>
           tmpFilename (f_c fr') = f \<and> headerWritten fr' \<and> rowCount fr' = rowCount fr + 1 \<and>
           pgConnectionURL (f_c fr') = pgConnectionURL (f_c fr)"
proof -
  from assms obtain fr2 where o: "open_artifact E descs (fr\<lparr>rowCount := rowCount fr + 1\<rparr>) = Inr fr2"
    by (auto simp: loop_body_def Let_def split: sum.splits)
  from open_artifact_Inr [OF o] obtain f where f: "f_fs fr f = None" "f_fs fr2 = (f_fs fr)(f \<mapsto> [])"
    "f_w fr2 = \<lparr>w_file = Some f, w_buf = [descs]\<rparr>"
    "f_c fr2 = (f_c fr)\<lparr>tmpFn := Some f, tmpFilename := f\<rparr>"
    "headerWritten fr2" "rowCount fr2 = rowCount fr + 1"
    by auto
  from assms o f show ?thesis
    by (auto simp: loop_body_def Let_def csv_Write_def split: sum.splits)
qed



lemma fresh_map_le: "fs f = None \<Longrightarrow> fs \<subseteq>\<^sub>m fs(f \<mapsto> x)"
  by (auto simp: map_le_def)

lemma stateComplete_neq_Error: "stateComplete \<noteq> stateError"
  by (simp add: state_defs)

lemma loop_body_map_le:
  "loop_body L E descs ev fr = Inr fr' \<Longrightarrow> f_fs fr \<subseteq>\<^sub>m f_fs fr'"
proof (cases "headerWritten fr")
  case True
  assume "loop_body L E descs ev fr = Inr fr'"
  with True have "f_fs fr' = f_fs fr"
    by (auto simp: loop_body_def Let_def split: sum.splits)
  then show ?thesis by simp
next
  case False
  assume "loop_body L E descs ev fr = Inr fr'"
  from loop_body_first [OF False this] obtain f where "f_fs fr f = None" "f_fs fr' = (f_fs fr)(f \<mapsto> [])"
    by blast
  then show ?thesis
    by (simp add: fresh_map_le)
qed

lemma loop_body_Inl_map_le:
  assumes "loop_body L E descs ev fr = Inl (c', fs')"
  shows "f_fs fr \<subseteq>\<^sub>m fs'"
proof (cases "headerWritten fr")
  case True
  with assms have "fs' = f_fs fr"
    by (auto simp: loop_body_def Let_def split: sum.splits)
  then show ?thesis by simp
next
  case False
  show ?thesis
  proof (cases "open_artifact E descs (fr\<lparr>rowCount := rowCount fr + 1\<rparr>)")
    case (Inl ret)
    with assms False have "open_artifact E descs (fr\<lparr>rowCount := rowCount fr + 1\<rparr>) = Inl (c', fs')"
      by (simp add: loop_body_def Let_def)
    from open_artifact_Inl [OF this] show ?thesis by simp
  next
    case (Inr fr2)
    from open_artifact_Inr [OF this] obtain f where f: "f_fs fr f = None" "f_fs fr2 = (f_fs fr)(f \<mapsto> [])"
      by auto
    from assms False Inr have "fs' = f_fs fr2"
      by (auto simp: loop_body_def Let_def split: sum.splits)
    with f show ?thesis
      by (simp add: fresh_map_le)
  qed
qed

lemma rows_loop_Inl_map_le:
  "rows_loop L E descs evs fr = Inl (c', fs') \<Longrightarrow> f_fs fr \<subseteq>\<^sub>m fs'"
proof (induction evs arbitrary: fr)
  case Nil
  then show ?case by simp
next
  case (Cons ev evs)
  show ?case
  proof (cases "loop_body L E descs ev fr")
    case (Inl ret)
    with Cons.prems have "loop_body L E descs ev fr = Inl (c', fs')" by simp
    then show ?thesis by (rule loop_body_Inl_map_le)
  next
    case (Inr fr1)
    with Cons.prems have "rows_loop L E descs evs fr1 = Inl (c', fs')" by simp
    from Cons.IH [OF this] have "f_fs fr1 \<subseteq>\<^sub>m fs'" .
    moreover from Inr have "f_fs fr \<subseteq>\<^sub>m f_fs fr1" by (rule loop_body_map_le)
    ultimately show ?thesis by (rule map_le_trans [rotated])
  qed
qed

subsection \<open>runQuery\<close>

lemma runQuery_Complete:
  assumes "runQuery L E c query fs = Inr (c', fs')" and "state c' = stateComplete"
  shows "\<exists>conn rows vals vs f. pg c = Some conn \<and> conn query = Inr rows \<and>
           fetched rows = map Inr (vals # vs) \<and> fs f = None \<and> tmpFilename c' = f \<and>
           fs' = fs(f \<mapsto> FieldDescriptions rows # map (map render) (vals # vs)) \<and>
           pgConnectionURL c' = pgConnectionURL c"
proof -
  define c1 where "c1 = c\<lparr>status := ''executing query'', state := stateStartQuery, fetchStart := now_start E\<rparr>"
  define fr0 where "fr0 = \<lparr>f_c = c1, f_fs = fs, f_w = csv_zero, rowCount = 0, headerWritten = False\<rparr>"
  from assms(1) obtain conn where conn: "pg c = Some conn"
    by (auto simp: runQuery_def Let_def split: option.splits)
  from assms conn obtain rows where rows: "conn query = Inr rows"
    by (auto simp: runQuery_def Let_def stateError_neq_Complete split: sum.splits)
  let ?loop = "rows_loop L E (FieldDescriptions rows) (fetched rows) fr0"
  have rq: "runQuery L E c query fs =
        (case ?loop of Inl ret \<Rightarrow> Inr ret
         | Inr fr \<Rightarrow> (case csv_Flush (f_w fr) (f_fs fr) of Inl p \<Rightarrow> Inl p
             | Inr fs' \<Rightarrow> Inr ((f_c fr)\<lparr>state := stateComplete,
                                status := ''fetched '' @ utoa (int (rowCount fr))
                                  @ '' rows successfully in ''
                                  @ fmt_secs L (now_end E - fetchStart (f_c fr))
                                  @ '' seconds''\<rparr>, fs')))"
    using conn rows by (simp add: runQuery_def Let_def c1_def fr0_def)
  obtain fr where fr: "?loop = Inr fr"
  proof (cases ?loop)
    case (Inl ret)
    with rq assms(1) have "?loop = Inl (c', fs')" by simp
    from rows_loop_Inl [OF this] assms(2) show ?thesis
      by (simp add: stateComplete_neq_Error)
  next
    case (Inr fr)
    then show ?thesis by (rule that)
  qed
  from rq fr assms(1) obtain fs2 where fl: "csv_Flush (f_w fr) (f_fs fr) = Inr fs2"
    and c': "c' = (f_c fr)\<lparr>state := stateComplete,
                                status := ''fetched '' @ utoa (int (rowCount fr))
                                  @ '' rows successfully in ''
                                  @ fmt_secs L (now_end E - fetchStart (f_c fr))
                                  @ '' seconds''\<rparr>" and fs2: "fs' = fs2"
    by (auto split: sum.splits)
  obtain ev evs where evs: "fetched rows = ev # evs"
  proof (cases "fetched rows")
    case Nil
    with fr have "fr = fr0" by simp
    with fl show ?thesis by (simp add: fr0_def csv_Flush_def csv_zero_def)
  next
    case (Cons ev evs)
    then show ?thesis by (rule that)
  qed
  from fr evs obtain fr1 where b: "loop_body L E (FieldDescriptions rows) ev fr0 = Inr fr1"
    and r: "rows_loop L E (FieldDescriptions rows) evs fr1 = Inr fr"
    by (auto split: sum.splits)
  have nh: "\<not> headerWritten fr0" by (simp add: fr0_def)
  from loop_body_first [OF nh b] obtain vals f where first: "ev = Inr vals" "f_fs fr0 f = None"
    "f_fs fr1 = (f_fs fr0)(f \<mapsto> [])"
    "f_w fr1 = \<lparr>w_file = Some f, w_buf = [FieldDescriptions rows, map render vals]\<rparr>"
    "tmpFilename (f_c fr1) = f" "headerWritten fr1"
    "pgConnectionURL (f_c fr1) = pgConnectionURL (f_c fr0)"
    by blast
  have wf: "w_file (f_w fr1) = Some f" using first(4) by simp
  from rows_loop_written [OF first(6) wf r] obtain vs where rest: "evs = map Inr vs"
    "f_w fr = (f_w fr1)\<lparr>w_buf := w_buf (f_w fr1) @ map (map render) vs\<rparr>"
    "f_fs fr = f_fs fr1" "tmpFilename (f_c fr) = tmpFilename (f_c fr1)"
    "pgConnectionURL (f_c fr) = pgConnectionURL (f_c fr1)"
    by blast
  have "fetched rows = map Inr (vals # vs)"
    using evs first(1) rest(1) by simp
  moreover have "fs f = None"
    using first(2) by (simp add: fr0_def)
  moreover have "tmpFilename c' = f"
    using c' rest(4) first(5) by simp
  moreover have "fs' = fs(f \<mapsto> FieldDescriptions rows # map (map render) (vals # vs))"
    using fl fs2 rest(2,3) first(3,4) by (simp add: csv_Flush_def fr0_def)
  moreover have "pgConnectionURL c' = pgConnectionURL c"
    using c' rest(5) first(7) by (simp add: fr0_def c1_def)
  ultimately show ?thesis
    using conn rows by blast
qed

lemma runQuery_Inr:
  assumes "runQuery L E c query fs = Inr (c', fs')"
  shows "terminal c' \<and> pgConnectionURL c' = pgConnectionURL c \<and> fs \<subseteq>\<^sub>m fs'"
proof (cases "state c' = stateComplete")
  case True
  from runQuery_Complete [OF assms True] obtain f col where "fs f = None" "fs' = fs(f \<mapsto> col)"
    "pgConnectionURL c' = pgConnectionURL c"
    by blast
  with True show ?thesis
    by (simp add: terminal_def fresh_map_le)
next
  case False
  define c1 where "c1 = c\<lparr>status := ''executing query'', state := stateStartQuery, fetchStart := now_start E\<rparr>"
  define fr0 where "fr0 = \<lparr>f_c = c1, f_fs = fs, f_w = csv_zero, rowCount = 0, headerWritten = False\<rparr>"
  from assms obtain conn where conn: "pg c = Some conn"
    by (auto simp: runQuery_def Let_def split: option.splits)
  show ?thesis
  proof (cases "conn query")
    case (Inl err)
    with assms conn show ?thesis
      by (auto simp: runQuery_def Let_def terminal_def)
  next
    case (Inr rows)
    let ?loop = "rows_loop L E (FieldDescriptions rows) (fetched rows) fr0"
    from assms conn Inr False have "?loop = Inl (c', fs')"
      by (auto simp: runQuery_def Let_def c1_def fr0_def split: sum.splits)
    from rows_loop_Inl [OF this] rows_loop_Inl_map_le [OF this] show ?thesis
      by (simp add: terminal_def fr0_def c1_def)
  qed
qed

subsection \<open>connectAndQuery\<close>

lemma connect_then_query_Complete:
  assumes "connect_then_query L E c query fs = Inr (c', fs')" and "state c' = stateComplete"
  shows "\<exists>cfg conn rows vals vs f. ParseConfig L (pgConnectionURL c) = Inr cfg \<and>
           dial E cfg = Inr conn \<and> conn query = Inr rows \<and>
           fetched rows = map Inr (vals # vs) \<and> fs f = None \<and> tmpFilename c' = f \<and>
           fs' = fs(f \<mapsto> FieldDescriptions rows # map (map render) (vals # vs)) \<and>
           pgConnectionURL c' = pgConnectionURL c"
proof -
  from assms obtain conn where co: "pgx_Connect L E (pgConnectionURL c) = Inr conn"
    by (auto simp: connect_then_query_def stateComplete_neq_Error [symmetric] split: sum.splits)
  then obtain cfg where cfg: "ParseConfig L (pgConnectionURL c) = Inr cfg" "dial E cfg = Inr conn"
    by (auto simp: pgx_Connect_def split: sum.splits)
  let ?c = "c\<lparr>pg := Some conn, status := ''connected'', state := stateConnected\<rparr>"
  from assms(1) co have "runQuery L E ?c query fs = Inr (c', fs')"
    by (simp add: connect_then_query_def)
  from runQuery_Complete [OF this assms(2)] cfg show ?thesis
    by auto
qed

lemma connect_then_query_Inr:
  assumes "connect_then_query L E c query fs = Inr (c', fs')"
  shows "terminal c' \<and> pgConnectionURL c' = pgConnectionURL c \<and> fs \<subseteq>\<^sub>m fs'"
proof (cases "pgx_Connect L E (pgConnectionURL c)")
  case (Inl err)
  with assms show ?thesis
    by (auto simp: connect_then_query_def terminal_def)
next
  case (Inr conn)
  let ?c = "c\<lparr>pg := Some conn, status := ''connected'', state := stateConnected\<rparr>"
  from assms Inr have "runQuery L E ?c query fs = Inr (c', fs')"
    by (simp add: connect_then_query_def)
  from runQuery_Inr [OF this] show ?thesis
    by simp
qed

text \<open>A result set without rows: the loop body never runs and Flush meets the zero writer.\<close>

lemma runQuery_no_rows:
  assumes "pg c = Some conn" and "conn query = Inr rows" and "fetched rows = []"
  shows "runQuery L E c query fs = Inl NilPointer"
  using assms by (simp add: runQuery_def Let_def csv_Flush_def csv_zero_def)

lemma connect_then_query_no_rows:
  assumes "ParseConfig L (pgConnectionURL c) = Inr cfg" and "dial E cfg = Inr conn"
    and "conn query = Inr rows" and "fetched rows = []"
  shows "connect_then_query L E c query fs = Inl NilPointer"
  using assms by (simp add: connect_then_query_def pgx_Connect_def runQuery_no_rows)

text \<open>An error of Values: the task returns in stateError.\<close>

lemma rows_loop_Values_error:
  assumes "Inl err \<in> set evs"
  shows "\<exists>c' fs'. rows_loop L E descs evs fr = Inl (c', fs')"
  using assms
proof (induction evs arbitrary: fr)
  case Nil
  then show ?case by simp
next
  case (Cons ev evs)
  show ?case
  proof (cases "loop_body L E descs ev fr")
    case (Inl ret)
    then show ?thesis by (cases ret) simp
  next
    case (Inr fr1)
    have "ev \<noteq> Inl err"
    proof
      assume "ev = Inl err"
      with Inr show False
        by (auto simp: loop_body_def Let_def split: sum.splits if_splits)
    qed
    with Cons.prems have "Inl err \<in> set evs" by simp
    from Cons.IH [OF this] Inr show ?thesis by simp
  qed
qed

section \<open>Properties of the process\<close>

subsection \<open>The wait group counts the goroutines that are not done\<close>

lemma unfinished_update_same:
  "i < length gs \<Longrightarrow> gs ! i \<noteq> Finished \<Longrightarrow> g \<noteq> Finished \<Longrightarrow>
     unfinished (gs[i := g]) = unfinished gs"
proof (induction gs arbitrary: i)
  case Nil
  then show ?case by simp
next
  case (Cons a gs)
  then show ?case
    by (cases i) (simp_all add: unfinished_def)
qed

lemma unfinished_update_Finished:
  "i < length gs \<Longrightarrow> gs ! i \<noteq> Finished \<Longrightarrow>
     Suc (unfinished (gs[i := Finished])) = unfinished gs"
proof (induction gs arbitrary: i)
  case Nil
  then show ?case by simp
next
  case (Cons a gs)
  then show ?case
    by (cases i) (simp_all add: unfinished_def)
qed

lemma unfinished_zero: "unfinished gs = 0 \<Longrightarrow> i < length gs \<Longrightarrow> gs ! i = Finished"
  by (auto simp: unfinished_def filter_empty_conv)

lemma unfinished_start: "unfinished (map (\<lambda>t. Spawned) ts) = length ts"
  by (induction ts) (simp_all add: unfinished_def)

lemma join_inv_start: "join_inv W (start W)"
  by (simp add: join_inv_def start_def unfinished_start returned_def Complete_def
        new_connection_def state_defs)

lemma join_inv_Begin:
  assumes "join_inv W s" and "step W (Begin i) s = Some s'"
  shows "join_inv W s'"
proof -
  from assms(2) have en: "i < length (gors s)" "gors s ! i = Spawned"
    and s': "s' = s\<lparr>conns := (conns s)[i := connecting (conns s ! i)], gors := (gors s)[i := Running]\<rparr>"
    by (auto split: if_splits)
  have nc: "\<not> Complete (connecting (conns s ! i))"
    by (simp add: Complete_def connecting_def state_defs)
  from assms(1) en have "unfinished ((gors s)[i := Running]) = unfinished (gors s)"
    by (simp add: unfinished_update_same)
  with assms(1) en nc show ?thesis
    unfolding s' join_inv_def
    by (auto simp: nth_list_update returned_def)
qed

lemma join_inv_Body:
  assumes "join_inv W s" and "step W (Body i) s = Some s'"
  shows "join_inv W s'"
proof -
  from assms(2) have en: "i < length (gors s)" "gors s ! i = Running"
    by (auto split: if_splits)
  let ?r = "connect_then_query (w_lib W) (snd (w_targets W ! i)) (conns s ! i) (w_query W) (disk s)"
  show ?thesis
  proof (cases ?r)
    case (Inl p)
    with assms(2) en have "s' = s\<lparr>fate := Panicked p\<rparr>"
      by (auto split: if_splits)
    with assms(1) show ?thesis
      by (auto simp: join_inv_def)
  next
    case (Inr ret)
    obtain c' fs' where ret: "ret = (c', fs')" by (cases ret)
    with Inr assms(2) en have s': "s' = s\<lparr>conns := (conns s)[i := c'], disk := fs',
                     gors := (gors s)[i := Returned]\<rparr>"
      by (auto split: if_splits)
    from Inr ret have t: "terminal c'"
      by (auto dest: connect_then_query_Inr)
    from assms(1) en have "unfinished ((gors s)[i := Returned]) = unfinished (gors s)"
      by (simp add: unfinished_update_same)
    with assms(1) en t show ?thesis
      unfolding s' join_inv_def
      by (auto simp: nth_list_update returned_def)
  qed
qed

lemma join_inv_Done:
  assumes "join_inv W s" and "step W (Done i) s = Some s'"
  shows "join_inv W s'"
proof -
  from assms(2) have en: "i < length (gors s)" "gors s ! i = Returned"
    by (auto split: if_splits)
  then have u: "Suc (unfinished ((gors s)[i := Finished])) = unfinished (gors s)"
    by (simp add: unfinished_update_Finished)
  with assms(1) have pos: "\<not> wg s - 1 < 0" and w: "wg s - 1 = int (unfinished ((gors s)[i := Finished]))"
    by (auto simp: join_inv_def)
  from assms(2) en pos have s': "s' = s\<lparr>wg := wg s - 1, gors := (gors s)[i := Finished]\<rparr>"
    by (auto split: if_splits)
  have nj: "\<not> joined s"
  proof
    assume "joined s"
    with assms(1) have "wg s = 0" by (simp add: join_inv_def)
    with assms(1) u show False by (simp add: join_inv_def)
  qed
  with assms(1) have na: "archive s = None"
    by (auto simp: join_inv_def)
  from assms(1) en w nj na show ?thesis
    unfolding s' join_inv_def
    by (auto simp: nth_list_update returned_def)
qed

lemma join_inv_Wait:
  assumes "join_inv W s" and "step W Wait s = Some s'"
  shows "join_inv W s'"
proof -
  from assms(2) have "wg s = 0" and "s' = s\<lparr>joined := True\<rparr>"
    by (auto split: if_splits)
  with assms(1) show ?thesis
    by (simp add: join_inv_def)
qed

lemma join_inv_Archive:
  assumes "join_inv W s" and "step W Archive s = Some s'"
  shows "join_inv W s'"
proof -
  from assms(2) have j: "joined s"
    by (auto split: if_splits)
  from assms(2) have "conns s' = conns s \<and> gors s' = gors s \<and> wg s' = wg s \<and> joined s' = joined s"
    by (auto split: if_splits option.splits sum.splits)
  with assms(1) j show ?thesis
    by (simp add: join_inv_def)
qed

lemma join_inv_step:
  assumes "join_inv W s" and "step W a s = Some s'"
  shows "join_inv W s'"
  using assms
  by (cases a) (blast intro: join_inv_Begin join_inv_Body join_inv_Done join_inv_Wait join_inv_Archive)+

lemma join_inv_exec:
  "join_inv W s \<Longrightarrow> exec W acts s = Some s' \<Longrightarrow> join_inv W s'"
proof (induction acts arbitrary: s)
  case Nil
  then show ?case by simp
next
  case (Cons a acts)
  from Cons.prems(2) obtain s1 where "step W a s = Some s1" "exec W acts s1 = Some s'"
    by (auto split: option.splits)
  with Cons.IH Cons.prems(1) show ?case
    by (blast intro: join_inv_step)
qed

lemma join_inv_all_terminal:
  assumes "join_inv W s" and "wg s = 0"
  shows "list_all terminal (conns s) \<and> length (filter terminal (conns s)) = length (w_targets W)"
proof -
  from assms have u: "unfinished (gors s) = 0" by (simp add: join_inv_def)
  have "terminal (conns s ! i)" if "i < length (conns s)" for i
  proof -
    from that assms(1) have i: "i < length (gors s)" "i < length (w_targets W)"
      by (simp_all add: join_inv_def)
    from unfinished_zero [OF u i(1)] have "returned (gors s ! i)"
      by (simp add: returned_def)
    with assms(1) i(2) show ?thesis
      by (simp add: join_inv_def)
  qed
  then have all: "list_all terminal (conns s)"
    by (simp add: list_all_length)
  then have "filter terminal (conns s) = conns s"
    by (simp add: list_all_iff)
  with all assms(1) show ?thesis
    by (simp add: join_inv_def)
qed

subsection \<open>The temporary files of the completed connections\<close>

lemma files_inv_start: "files_inv W (start W)"
  by (simp add: files_inv_def start_def Complete_def new_connection_def state_defs)

lemma files_inv_update:
  assumes inv: "files_inv W s"
    and i: "i < length (conns s)"
    and c: "conns s' = (conns s)[i := c']"
    and a: "archive s' = archive s"
    and le: "disk s \<subseteq>\<^sub>m disk s'"
    and own: "Complete c' \<Longrightarrow>
        (\<exists>cfg. ParseConfig (w_lib W) (pgConnectionURL c') = Inr cfg)
        \<and> disk s' (tmpFilename c') \<noteq> None
        \<and> (\<forall>j < length (conns s). j \<noteq> i \<longrightarrow> Complete (conns s ! j) \<longrightarrow>
               tmpFilename (conns s ! j) \<noteq> tmpFilename c')"
  shows "files_inv W s'"
proof -
  have keep: "disk s' x \<noteq> None" if "disk s x \<noteq> None" for x
    using le that by (auto simp: map_le_def dom_def)
  have at_i: "conns s' ! i = c'"
    using c i by simp
  have off_i: "conns s' ! j = conns s ! j" if "j \<noteq> i" for j
    using c that by simp
  have len: "length (conns s') = length (conns s)"
    using c by simp
  have p1: "\<exists>cfg. ParseConfig (w_lib W) (pgConnectionURL (conns s' ! j)) = Inr cfg"
    if "j < length (conns s')" "Complete (conns s' ! j)" for j
  proof (cases "j = i")
    case True
    with that own show ?thesis by (simp add: at_i)
  next
    case False
    with that inv show ?thesis by (simp add: off_i len files_inv_def)
  qed
  have p2: "disk s' (tmpFilename (conns s' ! j)) \<noteq> None"
    if "archive s' = None" "j < length (conns s')" "Complete (conns s' ! j)" for j
  proof (cases "j = i")
    case True
    with that own show ?thesis by (simp add: at_i)
  next
    case False
    with that inv a have "disk s (tmpFilename (conns s ! j)) \<noteq> None"
      by (simp add: off_i len files_inv_def)
    from keep [OF this] False show ?thesis by (simp add: off_i)
  qed
  have p3: "tmpFilename (conns s' ! j) \<noteq> tmpFilename (conns s' ! k)"
    if "j < length (conns s')" "k < length (conns s')" "j \<noteq> k"
      "Complete (conns s' ! j)" "Complete (conns s' ! k)" for j k
  proof -
    consider "j = i" | "k = i" | "j \<noteq> i" "k \<noteq> i" by blast
    then show ?thesis
    proof cases
      case 1
      with that have "k \<noteq> i" "k < length (conns s)" "Complete (conns s ! k)" "Complete c'"
        by (simp_all add: at_i off_i len)
      with own have "tmpFilename (conns s ! k) \<noteq> tmpFilename c'" by blast
      with 1 \<open>k \<noteq> i\<close> show ?thesis by (simp add: at_i off_i)
    next
      case 2
      with that have "j \<noteq> i" "j < length (conns s)" "Complete (conns s ! j)" "Complete c'"
        by (simp_all add: at_i off_i len)
      with own have "tmpFilename (conns s ! j) \<noteq> tmpFilename c'" by blast
      with 2 \<open>j \<noteq> i\<close> show ?thesis by (simp add: at_i off_i)
    next
      case 3
      with that have "j < length (conns s)" "k < length (conns s)"
        "Complete (conns s ! j)" "Complete (conns s ! k)"
        by (simp_all add: off_i len)
      with inv that(3) have "tmpFilename (conns s ! j) \<noteq> tmpFilename (conns s ! k)"
        unfolding files_inv_def by blast
      with 3 show ?thesis by (simp add: off_i)
    qed
  qed
  from p1 p2 p3 show ?thesis
    unfolding files_inv_def by blast
qed

lemma files_inv_Begin:
  assumes "files_inv W s" and "join_inv W s" and "step W (Begin i) s = Some s'"
  shows "files_inv W s'"
proof -
  from assms(3) have en: "i < length (gors s)"
    and s': "s' = s\<lparr>conns := (conns s)[i := connecting (conns s ! i)], gors := (gors s)[i := Running]\<rparr>"
    by (auto split: if_splits)
  from en assms(2) have i: "i < length (conns s)"
    by (simp add: join_inv_def)
  have nc: "\<not> Complete (connecting (conns s ! i))"
    by (simp add: Complete_def connecting_def state_defs)
  show ?thesis
  proof (rule files_inv_update [OF assms(1) i])
    show "conns s' = (conns s)[i := connecting (conns s ! i)]" by (simp add: s')
    show "archive s' = archive s" by (simp add: s')
    show "disk s \<subseteq>\<^sub>m disk s'" by (simp add: s')
  qed (simp add: nc)
qed

lemma files_inv_Body:
  assumes "files_inv W s" and "join_inv W s" and "step W (Body i) s = Some s'"
  shows "files_inv W s'"
proof -
  from assms(3) have en: "i < length (gors s)" "gors s ! i = Running"
    by (auto split: if_splits)
  from en assms(2) have i: "i < length (conns s)"
    by (simp add: join_inv_def)
  have na: "archive s = None"
  proof (rule ccontr)
    assume "archive s \<noteq> None"
    with assms(2) have "unfinished (gors s) = 0"
      by (auto simp: join_inv_def)
    from unfinished_zero [OF this en(1)] en(2) show False by simp
  qed
  let ?L = "w_lib W"
  let ?r = "connect_then_query ?L (snd (w_targets W ! i)) (conns s ! i) (w_query W) (disk s)"
  show ?thesis
  proof (cases ?r)
    case (Inl p)
    with assms(3) en have "s' = s\<lparr>fate := Panicked p\<rparr>"
      by (auto split: if_splits)
    with assms(1) show ?thesis
      by (auto simp: files_inv_def)
  next
    case (Inr ret)
    obtain c' fs' where ret: "ret = (c', fs')" by (cases ret)
    with Inr assms(3) en have s': "s' = s\<lparr>conns := (conns s)[i := c'], disk := fs',
                     gors := (gors s)[i := Returned]\<rparr>"
      by (auto split: if_splits)
    from Inr ret have r: "?r = Inr (c', fs')" by simp
    from connect_then_query_Inr [OF r] have le: "disk s \<subseteq>\<^sub>m fs'"
      and url: "pgConnectionURL c' = pgConnectionURL (conns s ! i)"
      by simp_all
    show ?thesis
    proof (rule files_inv_update [OF assms(1) i])
      show "conns s' = (conns s)[i := c']" by (simp add: s')
      show "archive s' = archive s" by (simp add: s')
      show "disk s \<subseteq>\<^sub>m disk s'" using le by (simp add: s')
    next
      assume "Complete c'"
      then have "state c' = stateComplete" by (simp add: Complete_def)
      from connect_then_query_Complete [OF r this] url
      obtain cfg where own: "ParseConfig ?L (pgConnectionURL c') = Inr cfg"
        "fs' (tmpFilename c') \<noteq> None" "disk s (tmpFilename c') = None"
        by auto
      have "tmpFilename (conns s ! j) \<noteq> tmpFilename c'"
        if "j < length (conns s)" "Complete (conns s ! j)" for j
      proof -
        from assms(1) na that have "disk s (tmpFilename (conns s ! j)) \<noteq> None"
          by (simp add: files_inv_def)
        with own(3) show ?thesis by auto
      qed
      with own show "(\<exists>cfg. ParseConfig ?L (pgConnectionURL c') = Inr cfg)
        \<and> disk s' (tmpFilename c') \<noteq> None
        \<and> (\<forall>j < length (conns s). j \<noteq> i \<longrightarrow> Complete (conns s ! j) \<longrightarrow>
               tmpFilename (conns s ! j) \<noteq> tmpFilename c')"
        by (simp add: s')
    qed
  qed
qed

lemma files_inv_Done:
  assumes "files_inv W s" and "step W (Done i) s = Some s'"
  shows "files_inv W s'"
proof -
  from assms(2) have "conns s' = conns s \<and> disk s' = disk s \<and> archive s' = archive s"
    by (auto split: if_splits)
  with assms(1) show ?thesis
    by (simp add: files_inv_def)
qed

lemma files_inv_Wait:
  assumes "files_inv W s" and "step W Wait s = Some s'"
  shows "files_inv W s'"
proof -
  from assms(2) have "conns s' = conns s \<and> disk s' = disk s \<and> archive s' = archive s"
    by (auto split: if_splits)
  with assms(1) show ?thesis
    by (simp add: files_inv_def)
qed

lemma files_inv_Archive:
  assumes "files_inv W s" and "step W Archive s = Some s'"
  shows "files_inv W s'"
proof -
  from assms(2) have "archive s = None" and "conns s' = conns s"
    and "archive s' \<noteq> None \<or> disk s' = disk s"
    by (auto split: if_splits option.splits sum.splits)
  with assms(1) show ?thesis
    by (auto simp: files_inv_def)
qed

lemma invs_step:
  assumes "join_inv W s \<and> files_inv W s" and "step W a s = Some s'"
  shows "join_inv W s' \<and> files_inv W s'"
proof
  from assms show "join_inv W s'"
    by (blast intro: join_inv_step)
  from assms show "files_inv W s'"
    by (cases a)
      (blast intro: files_inv_Begin files_inv_Body files_inv_Done files_inv_Wait files_inv_Archive)+
qed

lemma invs_exec:
  "join_inv W s \<and> files_inv W s \<Longrightarrow> exec W acts s = Some s' \<Longrightarrow> join_inv W s' \<and> files_inv W s'"
proof (induction acts arbitrary: s)
  case Nil
  then show ?case by simp
next
  case (Cons a acts)
  from Cons.prems(2) obtain s1 where "step W a s = Some s1" "exec W acts s1 = Some s'"
    by (auto split: option.splits)
  from invs_step [OF Cons.prems(1) this(1)] this(2) show ?case
    by (rule Cons.IH)
qed

lemma invs_reachable:
  "exec W acts (start W) = Some s \<Longrightarrow> join_inv W s \<and> files_inv W s"
  using invs_exec [of W "start W" acts s] join_inv_start files_inv_start by blast

subsection \<open>The archiving loop\<close>

lemma archive_loop_entries:
  "archive_loop L cs (z, fs) = Inr (z', fs') \<Longrightarrow>
     \<exists>es. z' = z @ es \<and> list_all2 (entry_of L) es (filter Complete cs)"
proof (induction cs arbitrary: z fs)
  case Nil
  then show ?case by simp
next
  case (Cons c cs)
  show ?case
  proof (cases "Complete c")
    case False
    with Cons.prems have "archive_loop L cs (z, fs) = Inr (z', fs')"
      by (simp add: Complete_def)
    from Cons.IH [OF this] False show ?thesis by simp
  next
    case True
    with Cons.prems obtain name content where
      n: "pgConnectionURLtoFilename L (pgConnectionURL c) = Inr name"
      and r: "archive_loop L cs (z @ [(name, content)], fs(tmpFilename c := None)) = Inr (z', fs')"
      by (auto simp: Complete_def split: sum.splits option.splits)
    from n have e: "entry_of L (name, content) c"
      by (auto simp: entry_of_def pgConnectionURLtoFilename_def split: sum.splits)
    from Cons.IH [OF r] obtain es where "z' = (z @ [(name, content)]) @ es"
      "list_all2 (entry_of L) es (filter Complete cs)"
      by blast
    with e True have "z' = z @ ((name, content) # es)"
      "list_all2 (entry_of L) ((name, content) # es) (filter Complete (c # cs))"
      by simp_all
    then show ?thesis by blast
  qed
qed

lemma archive_loop_succeeds:
  assumes "\<And>c. c \<in> set cs \<Longrightarrow> Complete c \<Longrightarrow>
             (\<exists>cfg. ParseConfig L (pgConnectionURL c) = Inr cfg) \<and> fs (tmpFilename c) \<noteq> None"
    and "distinct (map tmpFilename (filter Complete cs))"
  shows "\<exists>z' fs'. archive_loop L cs (z, fs) = Inr (z', fs')"
  using assms
proof (induction cs arbitrary: z fs)
  case Nil
  then show ?case by simp
next
  case (Cons c cs)
  show ?case
  proof (cases "Complete c")
    case False
    have "\<exists>z' fs'. archive_loop L cs (z, fs) = Inr (z', fs')"
    proof (rule Cons.IH)
      fix d assume "d \<in> set cs" "Complete d"
      then show "(\<exists>cfg. ParseConfig L (pgConnectionURL d) = Inr cfg) \<and> fs (tmpFilename d) \<noteq> None"
        using Cons.prems(1) [of d] by simp
    next
      from Cons.prems(2) False show "distinct (map tmpFilename (filter Complete cs))" by simp
    qed
    with False show ?thesis by (simp add: Complete_def)
  next
    case True
    from Cons.prems(1) [of c] True obtain cfg content where
      cfg: "ParseConfig L (pgConnectionURL c) = Inr cfg" and f: "fs (tmpFilename c) = Some content"
      by auto
    let ?name = "Host cfg @ ''_'' @ Database cfg @ ''.csv''"
    have "\<exists>z' fs'. archive_loop L cs (z @ [(?name, content)], fs(tmpFilename c := None)) = Inr (z', fs')"
    proof (rule Cons.IH)
      fix d assume d: "d \<in> set cs" "Complete d"
      with Cons.prems(2) True have "tmpFilename d \<noteq> tmpFilename c"
        by (auto simp: image_iff)
      with Cons.prems(1) [of d] d
      show "(\<exists>cfg. ParseConfig L (pgConnectionURL d) = Inr cfg)
          \<and> (fs(tmpFilename c := None)) (tmpFilename d) \<noteq> None"
        by simp
    next
      from Cons.prems(2) True show "distinct (map tmpFilename (filter Complete cs))" by simp
    qed
    with True cfg f show ?thesis
      by (simp add: Complete_def pgConnectionURLtoFilename_def)
  qed
qed

lemma apart_distinct:
  assumes "\<And>i j. i < length cs \<Longrightarrow> j < length cs \<Longrightarrow> i \<noteq> j \<Longrightarrow> P (cs ! i) \<Longrightarrow> P (cs ! j)
             \<Longrightarrow> f (cs ! i) \<noteq> f (cs ! j)"
  shows "distinct (map f (filter P cs))"
  using assms
proof (induction cs)
  case Nil
  then show ?case by simp
next
  case (Cons c cs)
  have tl: "distinct (map f (filter P cs))"
  proof (rule Cons.IH)
    fix i j assume "i < length cs" "j < length cs" "i \<noteq> j" "P (cs ! i)" "P (cs ! j)"
    then show "f (cs ! i) \<noteq> f (cs ! j)"
      using Cons.prems [of "Suc i" "Suc j"] by simp
  qed
  have hd: "f c \<noteq> f d" if "d \<in> set cs" "P d" "P c" for d
  proof -
    from that(1) obtain j where "j < length cs" "cs ! j = d"
      by (auto simp: in_set_conv_nth)
    with that(2,3) show ?thesis
      using Cons.prems [of 0 "Suc j"] by simp
  qed
  from tl hd show ?case
    by auto
qed

lemma archive_inv_start: "archive_inv W (start W)"
  by (simp add: archive_inv_def start_def)

lemma no_step_after_archive:
  assumes "join_inv W s" and "archive s \<noteq> None"
  shows "step W a s = None"
proof -
  from assms have j: "joined s" and u: "unfinished (gors s) = 0"
    by (auto simp: join_inv_def)
  have fin: "gors s ! i = Finished" if "i < length (gors s)" for i
    using unfinished_zero [OF u that] .
  show ?thesis
  proof (cases a)
    case (Begin i)
    then show ?thesis using fin [of i] by auto
  next
    case (Body i)
    then show ?thesis using fin [of i] by auto
  next
    case (Done i)
    then show ?thesis using fin [of i] by auto
  next
    case Wait
    then show ?thesis using j by simp
  next
    case Archive
    then show ?thesis using assms(2) by auto
  qed
qed

lemma archive_inv_step:
  assumes "archive_inv W s" and "join_inv W s" and "step W a s = Some s'"
  shows "archive_inv W s'"
proof (cases "archive s'")
  case None
  then show ?thesis by (simp add: archive_inv_def)
next
  case (Some z)
  from no_step_after_archive [OF assms(2)] assms(3) have na: "archive s = None"
    by (cases "archive s") auto
  have a: "a = Archive"
  proof (cases a)
    case (Begin i)
    with assms(3) na Some show ?thesis by (auto split: if_splits)
  next
    case (Body i)
    with assms(3) na Some show ?thesis by (auto split: if_splits sum.splits)
  next
    case (Done i)
    with assms(3) na Some show ?thesis by (auto split: if_splits)
  next
    case Wait
    with assms(3) na Some show ?thesis by (auto split: if_splits)
  next
    case Archive
    then show ?thesis .
  qed
  with assms(3) Some obtain fs' where "archive_loop (w_lib W) (conns s) ([], disk s) = Inr (z, fs')"
    and "conns s' = conns s"
    by (auto split: if_splits option.splits sum.splits)
  from archive_loop_entries [OF this(1)] this(2) Some show ?thesis
    by (auto simp: archive_inv_def)
qed

lemma archive_inv_exec:
  "archive_inv W s \<Longrightarrow> join_inv W s \<and> files_inv W s \<Longrightarrow> exec W acts s = Some s'
     \<Longrightarrow> archive_inv W s'"
proof (induction acts arbitrary: s)
  case Nil
  then show ?case by simp
next
  case (Cons a acts)
  from Cons.prems(3) obtain s1 where st: "step W a s = Some s1" "exec W acts s1 = Some s'"
    by (auto split: option.splits)
  from Cons.prems(1,2) st(1) have "archive_inv W s1"
    by (blast intro: archive_inv_step)
  moreover from invs_step [OF Cons.prems(2) st(1)] have "join_inv W s1 \<and> files_inv W s1" .
  ultimately show ?case
    using st(2) by (rule Cons.IH)
qed

lemma archive_inv_reachable:
  "exec W acts (start W) = Some s \<Longrightarrow> archive_inv W s"
  using archive_inv_exec [of W "start W" acts s] archive_inv_start join_inv_start files_inv_start
  by blast

text \<open>After the join the archiving loop runs through.\<close>

lemma archive_step_succeeds:
  assumes "join_inv W s" and "files_inv W s" and "joined s" and "archive s = None"
    and "fate s = Alive" and "w_create W = None"
  shows "\<exists>s' z. step W Archive s = Some s' \<and> archive s' = Some z \<and> fate s' = Alive
           \<and> conns s' = conns s"
proof -
  have d: "distinct (map tmpFilename (filter Complete (conns s)))"
  proof (rule apart_distinct)
    fix i j assume "i < length (conns s)" "j < length (conns s)" "i \<noteq> j"
      "Complete (conns s ! i)" "Complete (conns s ! j)"
    with assms(2) show "tmpFilename (conns s ! i) \<noteq> tmpFilename (conns s ! j)"
      unfolding files_inv_def by blast
  qed
  have "\<exists>z' fs'. archive_loop (w_lib W) (conns s) ([], disk s) = Inr (z', fs')"
  proof (rule archive_loop_succeeds [OF _ d])
    fix c assume "c \<in> set (conns s)" "Complete c"
    then obtain i where "i < length (conns s)" "conns s ! i = c"
      by (auto simp: in_set_conv_nth)
    with assms(2,4) \<open>Complete c\<close>
    show "(\<exists>cfg. ParseConfig (w_lib W) (pgConnectionURL c) = Inr cfg) \<and> disk s (tmpFilename c) \<noteq> None"
      unfolding files_inv_def by blast
  qed
  with assms(3-6) show ?thesis
    by auto
qed

subsection \<open>A task does not depend on the files of the others\<close>

text \<open>A pass of the loop, past the header, on two frames of the same task.\<close>

lemma loop_body_same_task:
  assumes "same_task fr1 fr2"
  shows "rel_sum (\<lambda>r1 r2. observed r1 = observed r2) same_task
           (loop_body L E descs ev fr1) (loop_body L E descs ev fr2)"
proof (cases ev)
  case (Inl err)
  with assms show ?thesis
    by (auto simp: loop_body_def Let_def same_task_def alike_def own_file_def observed_def
             split: option.splits)
next
  case (Inr vals)
  with assms show ?thesis
    by (auto simp: loop_body_def Let_def same_task_def alike_def own_file_def csv_Write_def
             split: option.splits)
qed

lemma rows_loop_same_task:
  assumes "same_task fr1 fr2"
  shows "rel_sum (\<lambda>r1 r2. observed r1 = observed r2) same_task
           (rows_loop L E descs evs fr1) (rows_loop L E descs evs fr2)"
  using assms
proof (induction evs arbitrary: fr1 fr2)
  case Nil
  then show ?case by simp
next
  case (Cons ev evs)
  have b: "rel_sum (\<lambda>r1 r2. observed r1 = observed r2) same_task
             (loop_body L E descs ev fr1) (loop_body L E descs ev fr2)"
    by (rule loop_body_same_task [OF Cons.prems])
  show ?case
  proof (cases "loop_body L E descs ev fr1")
    case l1: (Inl r1)
    with b show ?thesis
      by (cases "loop_body L E descs ev fr2") simp_all
  next
    case r1: (Inr fr1')
    show ?thesis
    proof (cases "loop_body L E descs ev fr2")
      case (Inl r2)
      with r1 b show ?thesis by simp
    next
      case (Inr fr2')
      with r1 b have "same_task fr1' fr2'" by simp
      from Cons.IH [OF this] r1 Inr show ?thesis by simp
    qed
  qed
qed

text \<open>The first pass, on two frames that differ in the files only.\<close>

lemma loop_body_first_same:
  assumes "\<not> headerWritten fr" and "tmpFn (f_c fr) = None"
    and "map_sum id (\<lambda>r. ()) (os_CreateTemp (temp E) fs1)
         = map_sum id (\<lambda>r. ()) (os_CreateTemp (temp E) fs2)"
  shows "rel_sum (\<lambda>r1 r2. observed r1 = observed r2) same_task
           (loop_body L E descs ev (fr\<lparr>f_fs := fs1\<rparr>)) (loop_body L E descs ev (fr\<lparr>f_fs := fs2\<rparr>))"
proof (cases "os_CreateTemp (temp E) fs1")
  case l1: (Inl e1)
  with assms(3) have l2: "os_CreateTemp (temp E) fs2 = Inl e1"
    by (cases "os_CreateTemp (temp E) fs2") simp_all
  from assms(1,2) l1 l2 show ?thesis
    by (simp add: loop_body_def Let_def open_artifact_def observed_def)
next
  case r1: (Inr a1)
  with assms(3) obtain a2 where r2: "os_CreateTemp (temp E) fs2 = Inr a2"
    by (cases "os_CreateTemp (temp E) fs2") simp_all
  obtain n1 g1 n2 g2 where a: "a1 = (n1, g1)" "a2 = (n2, g2)"
    by (cases a1, cases a2) blast
  from r1 r2 a have g: "g1 = fs1(n1 \<mapsto> [])" "g2 = fs2(n2 \<mapsto> [])"
    by (auto dest: os_CreateTemp_fresh)
  show ?thesis
  proof (cases ev)
    case (Inl err)
    with assms(1,2) r1 r2 a g show ?thesis
      by (simp add: loop_body_def Let_def open_artifact_def observed_def)
  next
    case (Inr vals)
    with assms(1,2) r1 r2 a g show ?thesis
      by (simp add: loop_body_def Let_def open_artifact_def same_task_def alike_def own_file_def
            csv_Write_def csv_NewWriter_def)
  qed
qed

lemma runQuery_same_outcome:
  assumes "tmpFn c = None"
    and "map_sum id (\<lambda>r. ()) (os_CreateTemp (temp E) fs1)
         = map_sum id (\<lambda>r. ()) (os_CreateTemp (temp E) fs2)"
  shows "same_outcome (runQuery L E c query fs1) (runQuery L E c query fs2)"
proof (cases "pg c")
  case None
  then show ?thesis
    by (simp add: runQuery_def Let_def same_outcome_def)
next
  case (Some conn)
  show ?thesis
  proof (cases "conn query")
    case (Inl err)
    with Some assms(1) show ?thesis
      by (simp add: runQuery_def Let_def same_outcome_def observed_def)
  next
    case (Inr rows)
    define fr0 where "fr0 =
      \<lparr>f_c = c\<lparr>status := ''executing query'', state := stateStartQuery, fetchStart := now_start E\<rparr>,
       f_fs = Map.empty, f_w = csv_zero, rowCount = 0, headerWritten = False\<rparr>"
    let ?descs = "FieldDescriptions rows"
    let ?loop = "\<lambda>fs. rows_loop L E ?descs (fetched rows) (fr0\<lparr>f_fs := fs\<rparr>)"
    have rq: "runQuery L E c query fs =
        (case ?loop fs of Inl ret \<Rightarrow> Inr ret
         | Inr fr \<Rightarrow> (case csv_Flush (f_w fr) (f_fs fr) of Inl p \<Rightarrow> Inl p
             | Inr fs' \<Rightarrow> Inr ((f_c fr)\<lparr>state := stateComplete,
                                status := ''fetched '' @ utoa (int (rowCount fr))
                                  @ '' rows successfully in ''
                                  @ fmt_secs L (now_end E - fetchStart (f_c fr))
                                  @ '' seconds''\<rparr>, fs')))" for fs
      using Some Inr by (simp add: runQuery_def Let_def fr0_def)
    show ?thesis
    proof (cases "fetched rows")
      case Nil
      then show ?thesis
        by (simp add: rq fr0_def csv_Flush_def csv_zero_def same_outcome_def)
    next
      case (Cons ev evs)
      have nh: "\<not> headerWritten fr0" and nt: "tmpFn (f_c fr0) = None"
        using assms(1) by (simp_all add: fr0_def)
      have first: "rel_sum (\<lambda>r1 r2. observed r1 = observed r2) same_task
           (loop_body L E ?descs ev (fr0\<lparr>f_fs := fs1\<rparr>)) (loop_body L E ?descs ev (fr0\<lparr>f_fs := fs2\<rparr>))"
        by (rule loop_body_first_same [OF nh nt assms(2)])
      have loop: "rel_sum (\<lambda>r1 r2. observed r1 = observed r2) same_task (?loop fs1) (?loop fs2)"
      proof (cases "loop_body L E ?descs ev (fr0\<lparr>f_fs := fs1\<rparr>)")
        case l1: (Inl r1)
        with first Cons show ?thesis
          by (cases "loop_body L E ?descs ev (fr0\<lparr>f_fs := fs2\<rparr>)") simp_all
      next
        case r1: (Inr fr1)
        show ?thesis
        proof (cases "loop_body L E ?descs ev (fr0\<lparr>f_fs := fs2\<rparr>)")
          case (Inl r2)
          with r1 first show ?thesis by simp
        next
          case (Inr fr2)
          with r1 first have "same_task fr1 fr2" by simp
          from rows_loop_same_task [OF this, of L E ?descs evs] r1 Inr Cons show ?thesis
            by simp
        qed
      qed
      show ?thesis
      proof (cases "?loop fs1")
        case l1: (Inl r1)
        with loop show ?thesis
          by (cases "?loop fs2") (simp_all add: rq same_outcome_def)
      next
        case r1: (Inr fr1)
        show ?thesis
        proof (cases "?loop fs2")
          case (Inl r2)
          with r1 loop show ?thesis by simp
        next
          case (Inr fr2)
          with r1 loop have "same_task fr1 fr2" by simp
          then show ?thesis
            by (auto simp: rq r1 Inr same_outcome_def observed_def same_task_def alike_def
                  own_file_def csv_Flush_def split: option.splits)
        qed
      qed
    qed
  qed
qed

text \<open>
  The result of a task, as far as it can be seen, is the same whatever files the other
  tasks have made, as long as the creation of its own temporary file fares the same.
\<close>

lemma connect_then_query_same_outcome:
  assumes "tmpFn c = None"
    and "map_sum id (\<lambda>r. ()) (os_CreateTemp (temp E) fs1)
         = map_sum id (\<lambda>r. ()) (os_CreateTemp (temp E) fs2)"
  shows "same_outcome (connect_then_query L E c query fs1) (connect_then_query L E c query fs2)"
proof (cases "pgx_Connect L E (pgConnectionURL c)")
  case (Inl err)
  with assms(1) show ?thesis
    by (simp add: connect_then_query_def same_outcome_def observed_def)
next
  case (Inr conn)
  let ?c = "c\<lparr>pg := Some conn, status := ''connected'', state := stateConnected\<rparr>"
  from assms(1) have "tmpFn ?c = None" by simp
  from runQuery_same_outcome [OF this assms(2)] Inr show ?thesis
    by (simp add: connect_then_query_def)
qed

section \<open>The claims about tasks, join and archive\<close>

lemmas sample_defs = lib0_def ep_rows_def ep_refused_def row1_def row2_def world2_def

lemmas run_defs =
  start_def new_connection_def connectAndQuery_def connecting_def connect_then_query_def
  pgx_Connect_def runQuery_def loop_body_def open_artifact_def os_CreateTemp_def csv_Flush_def
  csv_zero_def csv_Write_def csv_NewWriter_def pgConnectionURLtoFilename_def Let_def

lemmas render_defs =
  render_def cell_switch_def clause_defs itoa_def utoa.simps digit_char_def

lemma terminal_partition:
  "list_all terminal cs \<Longrightarrow>
     length (filter Complete cs) + length (filter (\<lambda>c. state c = stateError) cs) = length cs"
  by (induction cs) (auto simp: terminal_def Complete_def stateError_neq_Complete)

subsection \<open>Records and text lines\<close>












text \<open>
  The sample run: the first endpoint returns two rows, the second refuses the connection.
\<close>

lemma sample_before_join:
  "\<exists>s. exec (world2 ep_refused) [Begin 0, Begin 1, Body 1, Body 0, Done 0, Done 1]
          (start (world2 ep_refused)) = Some s
       \<and> fate s = Alive \<and> \<not> joined s \<and> wg s = 0 \<and> archive s = None"
  by (simp add: sample_defs run_defs)

lemma sample_archived:
  "\<exists>s. exec (world2 ep_refused) [Begin 0, Begin 1, Body 1, Body 0, Done 0, Done 1, Wait, Archive]
          (start (world2 ep_refused)) = Some s
       \<and> joined s
       \<and> archive s = Some [(''server1_db1.csv'', [[''id'', ''ok''], [''1'', ''true''], [''2'', ''[null]'']])]
       \<and> map state (conns s) = [stateComplete, stateError]"
  by (simp add: sample_defs run_defs render_defs stateError_neq_Complete)

text \<open>
  Claim C4. In every state a run reaches, under every schedule: \<^verbatim>\<open>wg.Wait()\<close> can return
  only when every connection is in a terminal state, and then the terminal connections
  are as many as the descriptors; this remains so once it has returned; the archiving
  starts only after the join, and an archive exists only after the join, so that no entry
  is made from a connection that is not in a terminal state.
\<close>

theorem join_after_every_task:
  assumes "exec W acts (start W) = Some s"
  shows "(step W Wait s \<noteq> None \<longrightarrow>
            list_all terminal (conns s)
            \<and> length (filter terminal (conns s)) = length (w_targets W))
       \<and> (joined s \<longrightarrow>
            list_all terminal (conns s)
            \<and> length (filter terminal (conns s)) = length (w_targets W))
       \<and> (step W Archive s \<noteq> None \<longrightarrow> joined s)
       \<and> (archive s \<noteq> None \<longrightarrow> joined s)"
proof -
  from invs_reachable [OF assms] have inv: "join_inv W s" by simp
  have zero: "list_all terminal (conns s) \<and> length (filter terminal (conns s)) = length (w_targets W)"
    if "wg s = 0"
    using join_inv_all_terminal [OF inv that] .
  have w: "wg s = 0" if "step W Wait s \<noteq> None"
    using that by (auto split: if_splits)
  have j: "wg s = 0" if "joined s"
    using inv that by (simp add: join_inv_def)
  have a: "joined s" if "step W Archive s \<noteq> None"
    using that by (auto split: if_splits)
  have z: "joined s" if "archive s \<noteq> None"
    using inv that by (simp add: join_inv_def)
  from zero w j a z show ?thesis
    by blast
qed

theorem join_after_every_task_witness:
  "(\<exists>s. exec (world2 ep_refused) [Begin 0, Begin 1, Body 1, Body 0, Done 0, Done 1]
          (start (world2 ep_refused)) = Some s
        \<and> step (world2 ep_refused) Wait s \<noteq> None
        \<and> list_all terminal (conns s)
        \<and> length (filter terminal (conns s)) = length (w_targets (world2 ep_refused)))
   \<and> (\<exists>s. exec (world2 ep_refused) [Begin 0, Begin 1, Body 1, Body 0, Done 0, Done 1, Wait, Archive]
          (start (world2 ep_refused)) = Some s
        \<and> archive s \<noteq> None \<and> joined s \<and> list_all terminal (conns s))"
proof -
  let ?W = "world2 ep_refused"
  from sample_before_join obtain s where
    e: "exec ?W [Begin 0, Begin 1, Body 1, Body 0, Done 0, Done 1] (start ?W) = Some s"
    and en: "fate s = Alive" "\<not> joined s" "wg s = 0"
    by blast
  from en have w: "step ?W Wait s \<noteq> None"
    by simp
  from join_after_every_task [OF e] w have
    "list_all terminal (conns s) \<and> length (filter terminal (conns s)) = length (w_targets ?W)"
    by blast
  with e w have first: "\<exists>s. exec ?W [Begin 0, Begin 1, Body 1, Body 0, Done 0, Done 1] (start ?W) = Some s
        \<and> step ?W Wait s \<noteq> None
        \<and> list_all terminal (conns s)
        \<and> length (filter terminal (conns s)) = length (w_targets ?W)"
    by blast
  from sample_archived obtain s' where
    e': "exec ?W [Begin 0, Begin 1, Body 1, Body 0, Done 0, Done 1, Wait, Archive] (start ?W) = Some s'"
    and a: "archive s' \<noteq> None"
    by auto
  from join_after_every_task [OF e'] a have "joined s' \<and> list_all terminal (conns s')"
    by blast
  with e' a have "\<exists>s. exec ?W [Begin 0, Begin 1, Body 1, Body 0, Done 0, Done 1, Wait, Archive]
          (start ?W) = Some s
        \<and> archive s \<noteq> None \<and> joined s \<and> list_all terminal (conns s)"
    by blast
  with first show ?thesis
    by blast
qed

text \<open>
  Claim C5. Whenever the archive is written, it has one entry per connection in
  \<^verbatim>\<open>stateComplete\<close>, in the order of the descriptors, each named
  \<^verbatim>\<open><host>_<database>.csv\<close> after the parsed descriptor of its connection; the other
  connections are all in \<^verbatim>\<open>stateError\<close> and have no entry, so entries and failed
  connections add up to the descriptors. And once the join is passed and the output file
  can be created, the archiving loop does write the archive, without a panic.
\<close>

theorem archive_entries:
  assumes "exec W acts (start W) = Some s"
  shows "(\<forall>z. archive s = Some z \<longrightarrow>
            length z = length (filter Complete (conns s))
            \<and> list_all2 (entry_of (w_lib W)) z (filter Complete (conns s))
            \<and> length z + length (filter (\<lambda>c. state c = stateError) (conns s))
                = length (w_targets W))
       \<and> (joined s \<and> archive s = None \<and> fate s = Alive \<and> w_create W = None \<longrightarrow>
            (\<exists>s' z. step W Archive s = Some s' \<and> fate s' = Alive \<and> archive s' = Some z
                \<and> length z = length (filter Complete (conns s))))"
proof -
  from invs_reachable [OF assms] have inv: "join_inv W s" "files_inv W s" by simp_all
  from archive_inv_reachable [OF assms] have ainv: "archive_inv W s" .
  have written: "length z = length (filter Complete (conns s))
            \<and> list_all2 (entry_of (w_lib W)) z (filter Complete (conns s))
            \<and> length z + length (filter (\<lambda>c. state c = stateError) (conns s))
                = length (w_targets W)" if z: "archive s = Some z" for z
  proof -
    from ainv z have l2: "list_all2 (entry_of (w_lib W)) z (filter Complete (conns s))"
      by (simp add: archive_inv_def)
    then have len: "length z = length (filter Complete (conns s))"
      by (rule list_all2_lengthD)
    from inv(1) z have "wg s = 0"
      by (auto simp: join_inv_def)
    from join_inv_all_terminal [OF inv(1) this] have "list_all terminal (conns s)" by simp
    from terminal_partition [OF this] inv(1) len l2 show ?thesis
      by (simp add: join_inv_def)
  qed
  have writes: "\<exists>s' z. step W Archive s = Some s' \<and> fate s' = Alive \<and> archive s' = Some z
                \<and> length z = length (filter Complete (conns s))"
    if "joined s" "archive s = None" "fate s = Alive" "w_create W = None"
  proof -
    from archive_step_succeeds [OF inv that] obtain s' z where
      st: "step W Archive s = Some s'" "archive s' = Some z" "fate s' = Alive" "conns s' = conns s"
      by blast
    from archive_inv_step [OF ainv inv(1) st(1)] st(2,4)
    have "list_all2 (entry_of (w_lib W)) z (filter Complete (conns s))"
      by (simp add: archive_inv_def)
    then have "length z = length (filter Complete (conns s))"
      by (rule list_all2_lengthD)
    with st show ?thesis by blast
  qed
  from written writes show ?thesis
    by blast
qed

theorem archive_entries_witness:
  "(\<exists>s z. exec (world2 ep_refused) [Begin 0, Begin 1, Body 1, Body 0, Done 0, Done 1, Wait, Archive]
          (start (world2 ep_refused)) = Some s
        \<and> archive s = Some z \<and> map fst z = [''server1_db1.csv'']
        \<and> map state (conns s) = [stateComplete, stateError]
        \<and> length z = length (filter Complete (conns s))
        \<and> list_all2 (entry_of (w_lib (world2 ep_refused))) z (filter Complete (conns s))
        \<and> length z + length (filter (\<lambda>c. state c = stateError) (conns s)) = 2)
   \<and> (\<exists>s s' z. exec (world2 ep_refused) [Begin 0, Begin 1, Body 1, Body 0, Done 0, Done 1, Wait]
          (start (world2 ep_refused)) = Some s
        \<and> joined s \<and> archive s = None \<and> fate s = Alive \<and> w_create (world2 ep_refused) = None
        \<and> step (world2 ep_refused) Archive s = Some s' \<and> archive s' = Some z
        \<and> length z = length (filter Complete (conns s)))"
proof -
  let ?W = "world2 ep_refused"
  from sample_archived obtain s z where
    e: "exec ?W [Begin 0, Begin 1, Body 1, Body 0, Done 0, Done 1, Wait, Archive] (start ?W) = Some s"
    and z: "archive s = Some z" "map fst z = [''server1_db1.csv'']"
    and st: "map state (conns s) = [stateComplete, stateError]"
    by auto
  from archive_entries [OF e] z(1) have "length z = length (filter Complete (conns s))
        \<and> list_all2 (entry_of (w_lib ?W)) z (filter Complete (conns s))
        \<and> length z + length (filter (\<lambda>c. state c = stateError) (conns s)) = length (w_targets ?W)"
    by blast
  moreover have "length (w_targets ?W) = 2"
    by (simp add: world2_def)
  ultimately have first: "\<exists>s z. exec ?W [Begin 0, Begin 1, Body 1, Body 0, Done 0, Done 1, Wait, Archive]
          (start ?W) = Some s
        \<and> archive s = Some z \<and> map fst z = [''server1_db1.csv'']
        \<and> map state (conns s) = [stateComplete, stateError]
        \<and> length z = length (filter Complete (conns s))
        \<and> list_all2 (entry_of (w_lib ?W)) z (filter Complete (conns s))
        \<and> length z + length (filter (\<lambda>c. state c = stateError) (conns s)) = 2"
    using e z st by auto
  have "\<exists>s. exec ?W [Begin 0, Begin 1, Body 1, Body 0, Done 0, Done 1, Wait] (start ?W) = Some s
       \<and> joined s \<and> archive s = None \<and> fate s = Alive"
    by (simp add: sample_defs run_defs)
  then obtain t where
    e': "exec ?W [Begin 0, Begin 1, Body 1, Body 0, Done 0, Done 1, Wait] (start ?W) = Some t"
    and pre: "joined t" "archive t = None" "fate t = Alive"
    by blast
  have cr: "w_create ?W = None"
    by (simp add: world2_def)
  from archive_entries [OF e'] pre cr obtain t' z' where
    "step ?W Archive t = Some t'" "archive t' = Some z'"
    "length z' = length (filter Complete (conns t))"
    by blast
  with e' pre cr have "\<exists>s s' z. exec ?W [Begin 0, Begin 1, Body 1, Body 0, Done 0, Done 1, Wait]
          (start ?W) = Some s
        \<and> joined s \<and> archive s = None \<and> fate s = Alive \<and> w_create ?W = None
        \<and> step ?W Archive s = Some s' \<and> archive s' = Some z
        \<and> length z = length (filter Complete (conns s))"
    by blast
  with first show ?thesis
    by blast
qed

text \<open>
  Claim C9. \<^verbatim>\<open>pgConnectionURLtoFilename\<close> panics exactly on a descriptor that does not
  parse. The archiving loop calls it for the connections in \<^verbatim>\<open>stateComplete\<close> only, and
  in every state a run reaches the descriptor of such a connection has been parsed by
  \<^verbatim>\<open>pgx.Connect\<close> already: there the call returns a name and the panic is not reached.
\<close>

theorem filename_of_Complete:
  assumes "exec W acts (start W) = Some s" and "i < length (conns s)"
    and "state (conns s ! i) = stateComplete"
  shows "(\<forall>url err. ParseConfig (w_lib W) url = Inl err \<longrightarrow>
             pgConnectionURLtoFilename (w_lib W) url = Inl (PanicError err))
       \<and> (\<exists>cfg. ParseConfig (w_lib W) (pgConnectionURL (conns s ! i)) = Inr cfg
             \<and> pgConnectionURLtoFilename (w_lib W) (pgConnectionURL (conns s ! i))
                 = Inr (Host cfg @ ''_'' @ Database cfg @ ''.csv''))"
proof -
  from invs_reachable [OF assms(1)] have "files_inv W s" by simp
  with assms(2,3) obtain cfg where "ParseConfig (w_lib W) (pgConnectionURL (conns s ! i)) = Inr cfg"
    unfolding files_inv_def Complete_def by blast
  then show ?thesis
    by (auto simp: pgConnectionURLtoFilename_def)
qed

theorem filename_of_Complete_witness:
  "\<exists>s. exec (world2 ep_refused) [Begin 0, Begin 1, Body 1, Body 0] (start (world2 ep_refused)) = Some s
      \<and> 0 < length (conns s) \<and> state (conns s ! 0) = stateComplete
      \<and> pgConnectionURLtoFilename lib0 (pgConnectionURL (conns s ! 0)) = Inr ''server1_db1.csv''
      \<and> pgConnectionURLtoFilename lib0 ''server3'' = Inl (PanicError ''cannot parse'')"
proof -
  let ?W = "world2 ep_refused"
  have "\<exists>s. exec ?W [Begin 0, Begin 1, Body 1, Body 0] (start ?W) = Some s
      \<and> 0 < length (conns s) \<and> state (conns s ! 0) = stateComplete
      \<and> pgConnectionURL (conns s ! 0) = ''postgresql://server1/db1''"
    by (simp add: sample_defs run_defs)
  then obtain s where e: "exec ?W [Begin 0, Begin 1, Body 1, Body 0] (start ?W) = Some s"
    and i: "0 < length (conns s)" and c: "state (conns s ! 0) = stateComplete"
    and u: "pgConnectionURL (conns s ! 0) = ''postgresql://server1/db1''"
    by blast
  have l: "w_lib ?W = lib0"
    by (simp add: world2_def)
  have bad: "ParseConfig lib0 ''server3'' = Inl ''cannot parse''"
    by (simp add: lib0_def)
  from filename_of_Complete [OF e i c] l bad
  have "pgConnectionURLtoFilename lib0 ''server3'' = Inl (PanicError ''cannot parse'')"
    by simp
  moreover from filename_of_Complete [OF e i c] l u obtain cfg where
    p: "ParseConfig lib0 ''postgresql://server1/db1'' = Inr cfg"
    and n: "pgConnectionURLtoFilename lib0 (pgConnectionURL (conns s ! 0))
       = Inr (Host cfg @ ''_'' @ Database cfg @ ''.csv'')"
    by auto
  from p have "cfg = \<lparr>Host = ''server1'', Database = ''db1''\<rparr>"
    by (simp add: lib0_def)
  with n have "pgConnectionURLtoFilename lib0 (pgConnectionURL (conns s ! 0)) = Inr ''server1_db1.csv''"
    by simp
  ultimately show ?thesis
    using e i c by blast
qed

text \<open>
  Had \<^verbatim>\<open>runQuery\<close> returned for a result set without rows, the archiving loop would
  meet a connection in \<^verbatim>\<open>stateComplete\<close> whose \<^verbatim>\<open>tmpFilename\<close> is still empty: it
  has no test for that and panics on the error of \<^verbatim>\<open>io.Copy\<close>.
\<close>

lemma archive_loop_without_file:
  "archive_loop lib0 [(new_connection ''postgresql://server2/db2'')\<lparr>state := stateComplete\<rparr>]
     ([], Map.empty) = Inl (PanicError ''invalid argument'')"
  by (simp add: lib0_def new_connection_def pgConnectionURLtoFilename_def)

text \<open>
  Claim C2, where the code departs from it. The query succeeds and the result set has
  no row: the loop body never runs, \<^verbatim>\<open>w\<close> is still the zero \<^verbatim>\<open>csv.Writer\<close>, and
  \<^verbatim>\<open>w.Flush()\<close> dereferences its nil buffered writer. \<^verbatim>\<open>connectAndQuery\<close> does not
  return; in the process, the goroutine's panic ends the run with the connection short of
  \<^verbatim>\<open>stateComplete\<close> and no archive written.
\<close>

theorem zero_rows_panic:
  "connectAndQuery lib0 (ep_rows [] None [''/tmp/sqlcsv1'']) (new_connection ''postgresql://server2/db2'')
      ''SELECT id, ok FROM t'' Map.empty = Inl NilPointer
   \<and> (\<exists>s. exec (world2 (ep_rows [] None [''/tmp/sqlcsv1''])) [Begin 1, Body 1]
            (start (world2 (ep_rows [] None [''/tmp/sqlcsv1'']))) = Some s
          \<and> fate s = Panicked NilPointer
          \<and> state (conns s ! 1) \<noteq> stateComplete
          \<and> archive s = None)
   \<and> exec (world2 (ep_rows [] None [''/tmp/sqlcsv1''])) [Begin 1, Body 1, Wait]
            (start (world2 (ep_rows [] None [''/tmp/sqlcsv1'']))) = None"
proof -
  have f: "connectAndQuery lib0 (ep_rows [] None [''/tmp/sqlcsv1'']) (new_connection ''postgresql://server2/db2'')
      ''SELECT id, ok FROM t'' Map.empty = Inl NilPointer"
    by (simp add: sample_defs run_defs)
  have p: "\<exists>s. exec (world2 (ep_rows [] None [''/tmp/sqlcsv1''])) [Begin 1, Body 1]
            (start (world2 (ep_rows [] None [''/tmp/sqlcsv1'']))) = Some s
          \<and> fate s = Panicked NilPointer
          \<and> state (conns s ! 1) \<noteq> stateComplete
          \<and> archive s = None"
    by (simp add: sample_defs run_defs state_defs)
  have n: "exec (world2 (ep_rows [] None [''/tmp/sqlcsv1''])) [Begin 1, Body 1, Wait]
            (start (world2 (ep_rows [] None [''/tmp/sqlcsv1'']))) = None"
    by (simp add: sample_defs run_defs)
  from f p n show ?thesis
    by blast
qed

text \<open>
  Claim C3, where the code departs from it. The first row arrives, then the stream
  breaks: \<^verbatim>\<open>Next()\<close> returns false with an error behind it. The loop ends as if the rows
  had run out, \<^verbatim>\<open>rows.Err()\<close> is never asked, the connection goes to
  \<^verbatim>\<open>stateComplete\<close>, and the archive gets an entry with the partial file.
\<close>

theorem broken_stream_completes:
  "(\<exists>c' fs'. connectAndQuery lib0 (ep_rows [Inr row1] (Some ''unexpected EOF'') [''/tmp/sqlcsv9''])
        (new_connection ''postgresql://server2/db2'') ''SELECT id, ok FROM t'' Map.empty = Inr (c', fs')
      \<and> state c' = stateComplete
      \<and> fs' ''/tmp/sqlcsv9'' = Some [[''id'', ''ok''], [''1'', ''true'']])
   \<and> (\<exists>s. exec (world2 (ep_rows [Inr row1] (Some ''unexpected EOF'') [''/tmp/sqlcsv9'']))
            [Begin 0, Begin 1, Body 1, Body 0, Done 0, Done 1, Wait, Archive]
            (start (world2 (ep_rows [Inr row1] (Some ''unexpected EOF'') [''/tmp/sqlcsv9'']))) = Some s
          \<and> map state (conns s) = [stateComplete, stateComplete]
          \<and> archive s = Some
               [(''server1_db1.csv'', [[''id'', ''ok''], [''1'', ''true''], [''2'', ''[null]'']]),
                (''server2_db2.csv'', [[''id'', ''ok''], [''1'', ''true'']])])"
proof -
  have f: "\<exists>c' fs'. connectAndQuery lib0 (ep_rows [Inr row1] (Some ''unexpected EOF'') [''/tmp/sqlcsv9''])
        (new_connection ''postgresql://server2/db2'') ''SELECT id, ok FROM t'' Map.empty = Inr (c', fs')
      \<and> state c' = stateComplete
      \<and> fs' ''/tmp/sqlcsv9'' = Some [[''id'', ''ok''], [''1'', ''true'']]"
    by (simp add: sample_defs run_defs render_defs)
  have p: "\<exists>s. exec (world2 (ep_rows [Inr row1] (Some ''unexpected EOF'') [''/tmp/sqlcsv9'']))
            [Begin 0, Begin 1, Body 1, Body 0, Done 0, Done 1, Wait, Archive]
            (start (world2 (ep_rows [Inr row1] (Some ''unexpected EOF'') [''/tmp/sqlcsv9'']))) = Some s
          \<and> map state (conns s) = [stateComplete, stateComplete]
          \<and> archive s = Some
               [(''server1_db1.csv'', [[''id'', ''ok''], [''1'', ''true''], [''2'', ''[null]'']]),
                (''server2_db2.csv'', [[''id'', ''ok''], [''1'', ''true'']])]"
    by (simp add: sample_defs run_defs render_defs)
  from f p show ?thesis
    by blast
qed

text \<open>
  Claim C8, where the code departs from it. Two runs that differ only in the rows of the
  second endpoint, one row or none, under the same schedule: in the first the task of
  the first endpoint completes; in the second the panic of the second task (the one of
  claim C2) ends the process while the first task is still connecting, and the schedule
  cannot go on. Short of a panic the tasks are isolated: a move of one goroutine reads
  its own endpoint, its own connection and the files, and by
  \<open>connect_then_query_same_outcome\<close> the files of the others do not change what it
  leaves.
\<close>

theorem sibling_panic_stops_task:
  "(\<exists>s. exec (world2 (ep_rows [Inr row1] None [''/tmp/sqlcsv9''])) [Begin 0, Begin 1, Body 1, Body 0]
            (start (world2 (ep_rows [Inr row1] None [''/tmp/sqlcsv9'']))) = Some s
          \<and> fate s = Alive \<and> state (conns s ! 0) = stateComplete)
   \<and> (\<exists>s. exec (world2 (ep_rows [] None [''/tmp/sqlcsv9''])) [Begin 0, Begin 1, Body 1]
            (start (world2 (ep_rows [] None [''/tmp/sqlcsv9'']))) = Some s
          \<and> fate s = Panicked NilPointer \<and> state (conns s ! 0) = stateConnecting
          \<and> \<not> terminal (conns s ! 0))
   \<and> exec (world2 (ep_rows [] None [''/tmp/sqlcsv9''])) [Begin 0, Begin 1, Body 1, Body 0]
            (start (world2 (ep_rows [] None [''/tmp/sqlcsv9'']))) = None"
proof -
  have a: "\<exists>s. exec (world2 (ep_rows [Inr row1] None [''/tmp/sqlcsv9''])) [Begin 0, Begin 1, Body 1, Body 0]
            (start (world2 (ep_rows [Inr row1] None [''/tmp/sqlcsv9'']))) = Some s
          \<and> fate s = Alive \<and> state (conns s ! 0) = stateComplete"
    by (simp add: sample_defs run_defs)
  have b: "\<exists>s. exec (world2 (ep_rows [] None [''/tmp/sqlcsv9''])) [Begin 0, Begin 1, Body 1]
            (start (world2 (ep_rows [] None [''/tmp/sqlcsv9'']))) = Some s
          \<and> fate s = Panicked NilPointer \<and> state (conns s ! 0) = stateConnecting
          \<and> \<not> terminal (conns s ! 0)"
    by (simp add: sample_defs run_defs terminal_def state_defs)
  have c: "exec (world2 (ep_rows [] None [''/tmp/sqlcsv9''])) [Begin 0, Begin 1, Body 1, Body 0]
            (start (world2 (ep_rows [] None [''/tmp/sqlcsv9'']))) = None"
    by (simp add: sample_defs run_defs)
  from a b c show ?thesis
    by blast
qed

end
